theory Spec2Isabelle
  imports Complex_Main "HOL-Library.Multiset" "HOL-Library.Word"
begin

section \<open>Data model (engine_types.h and the structs of ga_packer.cpp)\<close>

text \<open>
  The C++ type \<open>double\<close> is modelled by \<^typ>\<open>real\<close>, without NaN and infinity.
  Arithmetic is exact, except on the weight counters of \<open>pack_by_order\<close>: the sum in the
  test \<open>box.weight > remaining_weight + 1e-9\<close>, the difference in
  \<open>remaining_weight -= box.weight\<close> and the sum in \<open>total_weight += box.weight\<close> are
  rounded to the nearest double by \<open>fl\<close> below, and the literal \<open>1e-9\<close> of that test is the
  double \<open>fl (1 / 10^9)\<close>, since the weight cap depends on what these operations return. \<open>size_t\<close> indices are natural numbers, \<open>int\<close> is
  \<^typ>\<open>int\<close> (the driver clamps both of its int parameters before any arithmetic on them).
  Record fields carry a prefix, since the structs share the field names w, h, d, x, y, z.
\<close>

record Box =
  box_id :: string
  box_w :: real
  box_h :: real
  box_d :: real
  box_weight :: real
  box_priority :: int

record Truck =
  truck_w :: real
  truck_h :: real
  truck_d :: real
  truck_max_weight :: real

record Placement =
  pl_id :: string
  pl_x :: real
  pl_y :: real
  pl_z :: real
  pl_w :: real
  pl_h :: real
  pl_d :: real

record Result =
  placed :: "Placement list"
  unplaced :: "string list"
  used_volume :: real
  total_volume :: real
  utilization :: real
  total_weight :: real

record AABB =
  ax :: real
  ay :: real
  az :: real
  aw :: real
  ah :: real
  ad :: real

record Candidate =
  cand_x :: real
  cand_y :: real
  cand_z :: real

record PlacedState =
  ps_box :: AABB
  ps_id :: string
  ps_weight :: real
  max_load :: real
  load_on_top :: real

definition volume :: "real \<Rightarrow> real \<Rightarrow> real \<Rightarrow> real" where
  "volume w h d = w * h * d"

definition kEps :: real where
  "kEps = 1 / 100000000"

definition kMinSupportRatio :: real where
  "kMinSupportRatio = 9 / 10"

definition kMaxStackMultiplier :: real where
  "kMaxStackMultiplier = 6"

definition kMaxPressure :: real where
  "kMaxPressure = 2500"

definition kMaxCandidates :: nat where
  "kMaxCandidates = 350"

text \<open>The literal \<open>1e-9\<close> of the weight and load comparisons, and \<open>1e-6\<close> of the face match.\<close>

definition slack9 :: real where
  "slack9 = 1 / 1000000000"

definition slack6 :: real where
  "slack6 = 1 / 1000000"

section \<open>Geometry primitives\<close>

definition sep_x :: "AABB \<Rightarrow> AABB \<Rightarrow> bool" where
  "sep_x a b = (ax a + aw a \<le> ax b \<or> ax b + aw b \<le> ax a)"

definition sep_y :: "AABB \<Rightarrow> AABB \<Rightarrow> bool" where
  "sep_y a b = (ay a + ah a \<le> ay b \<or> ay b + ah b \<le> ay a)"

definition sep_z :: "AABB \<Rightarrow> AABB \<Rightarrow> bool" where
  "sep_z a b = (az a + ad a \<le> az b \<or> az b + ad b \<le> az a)"

definition intersects :: "AABB \<Rightarrow> AABB \<Rightarrow> bool" where
  "intersects a b = (\<not> (sep_x a b \<or> sep_y a b \<or> sep_z a b))"

definition inside_truck :: "Truck \<Rightarrow> AABB \<Rightarrow> bool" where
  "inside_truck t b =
     (ax b \<ge> 0 \<and> ay b \<ge> 0 \<and> az b \<ge> 0 \<and> ax b + aw b \<le> truck_w t
      \<and> ay b + ah b \<le> truck_h t \<and> az b + ad b \<le> truck_d t)"

definition overlap_1d :: "real \<Rightarrow> real \<Rightarrow> real \<Rightarrow> real \<Rightarrow> real" where
  "overlap_1d a0 a1 b0 b1 = (let lo = max a0 b0; hi = min a1 b1 in max 0 (hi - lo))"

definition overlap_area_xz :: "AABB \<Rightarrow> AABB \<Rightarrow> real" where
  "overlap_area_xz tp bm =
     (let ox = overlap_1d (ax tp) (ax tp + aw tp) (ax bm) (ax bm + aw bm);
          oz = overlap_1d (az tp) (az tp + ad tp) (az bm) (az bm + ad bm)
      in ox * oz)"

definition point_in_overlap_xz :: "real \<Rightarrow> real \<Rightarrow> AABB \<Rightarrow> AABB \<Rightarrow> bool" where
  "point_in_overlap_xz px pz tp bm =
     (let x0 = max (ax tp) (ax bm);
          x1 = min (ax tp + aw tp) (ax bm + aw bm);
          z0 = max (az tp) (az bm);
          z1 = min (az tp + ad tp) (az bm + ad bm)
      in px + kEps \<ge> x0 \<and> px - kEps \<le> x1 \<and> pz + kEps \<ge> z0 \<and> pz - kEps \<le> z1)"

definition max_load_for :: "real \<Rightarrow> real \<Rightarrow> real" where
  "max_load_for weight base_area =
     (let by_weight = weight * kMaxStackMultiplier;
          by_pressure = base_area * kMaxPressure
      in max kEps (min by_weight by_pressure))"

section \<open>Support and crush kernel\<close>

text \<open>
  The first loop of \<open>support_ok_and_apply_load\<close>: it walks \<open>placed\<close> from index \<open>i\<close> and
  returns the supported area, the centroid flag and the list \<open>supports\<close> of
  (index, overlap area) pairs, in index order.
\<close>

fun scan_supports ::
  "AABB \<Rightarrow> real \<Rightarrow> real \<Rightarrow> nat \<Rightarrow> PlacedState list \<Rightarrow> real \<times> bool \<times> (nat \<times> real) list" where
  "scan_supports c ccx ccz i [] = (0, False, [])"
| "scan_supports c ccx ccz i (s # ss) =
     (let rest = scan_supports c ccx ccz (Suc i) ss;
          top_y = ay (ps_box s) + ah (ps_box s)
      in if \<bar>top_y - ay c\<bar> > slack6 then rest
         else let area = overlap_area_xz c (ps_box s)
              in if area \<le> kEps then rest
                 else (area + fst rest,
                       point_in_overlap_xz ccx ccz c (ps_box s) \<or> fst (snd rest),
                       (i, area) # snd (snd rest)))"

definition load_share :: "real \<Rightarrow> real \<Rightarrow> real \<Rightarrow> real" where
  "load_share weight base_area area = weight * min 1 (max 0 (area / base_area))"

definition crush_ok :: "real \<Rightarrow> real \<Rightarrow> PlacedState list \<Rightarrow> (nat \<times> real) list \<Rightarrow> bool" where
  "crush_ok weight base_area ps supports =
     list_all (\<lambda>(idx, area).
        \<not> (load_on_top (ps ! idx) + load_share weight base_area area
             > max_load (ps ! idx) + slack9)) supports"

definition add_load :: "PlacedState list \<Rightarrow> nat \<Rightarrow> real \<Rightarrow> PlacedState list" where
  "add_load ps idx added = ps[idx := (ps ! idx)\<lparr>load_on_top := load_on_top (ps ! idx) + added\<rparr>]"

fun apply_loads ::
  "real \<Rightarrow> real \<Rightarrow> (nat \<times> real) list \<Rightarrow> PlacedState list \<Rightarrow> PlacedState list" where
  "apply_loads weight base_area [] ps = ps"
| "apply_loads weight base_area ((idx, area) # rest) ps =
     apply_loads weight base_area rest (add_load ps idx (load_share weight base_area area))"

text \<open>
  \<open>support_ok_and_apply_load\<close> returns its boolean, the vector \<open>placed\<close> after the call and
  the pairs it pushed to \<open>applied\<close> (the one caller passes a non-null, empty vector).
\<close>

definition support_ok_and_apply_load ::
  "AABB \<Rightarrow> real \<Rightarrow> PlacedState list \<Rightarrow> bool \<times> PlacedState list \<times> (nat \<times> real) list" where
  "support_ok_and_apply_load candidate weight ps =
     (if ay candidate \<le> kEps then (True, ps, [])
      else
        let base_area = max kEps (aw candidate * ad candidate);
            ccx = ax candidate + aw candidate / 2;
            ccz = az candidate + ad candidate / 2;
            scan = scan_supports candidate ccx ccz 0 ps;
            supported_area = fst scan;
            centroid_supported = fst (snd scan);
            supports = snd (snd scan)
        in if \<not> centroid_supported then (False, ps, [])
           else if supported_area + slack9 < kMinSupportRatio * base_area then (False, ps, [])
           else if \<not> crush_ok weight base_area ps supports then (False, ps, [])
           else (True, apply_loads weight base_area supports ps,
                 map (\<lambda>(idx, area). (idx, load_share weight base_area area)) supports))"

text \<open>
  Names for the values the kernel computes once \<open>candidate.y > kEps\<close>: the base area, the
  result of the first loop, and the three tests that lead to \<open>return false\<close>.
\<close>

definition base_area_of :: "AABB \<Rightarrow> real" where
  "base_area_of c = max kEps (aw c * ad c)"

definition scan :: "AABB \<Rightarrow> PlacedState list \<Rightarrow> real \<times> bool \<times> (nat \<times> real) list" where
  "scan c ps = scan_supports c (ax c + aw c / 2) (az c + ad c / 2) 0 ps"

definition supports_of :: "AABB \<Rightarrow> PlacedState list \<Rightarrow> (nat \<times> real) list" where
  "supports_of c ps = snd (snd (scan c ps))"

definition centroid_test :: "AABB \<Rightarrow> PlacedState list \<Rightarrow> bool" where
  "centroid_test c ps = fst (snd (scan c ps))"

definition coverage_test :: "AABB \<Rightarrow> PlacedState list \<Rightarrow> bool" where
  "coverage_test c ps = (\<not> fst (scan c ps) + slack9 < kMinSupportRatio * base_area_of c)"

definition crush_test :: "AABB \<Rightarrow> real \<Rightarrow> PlacedState list \<Rightarrow> bool" where
  "crush_test c weight ps = crush_ok weight (base_area_of c) ps (supports_of c ps)"

fun rollback_loads :: "PlacedState list \<Rightarrow> (nat \<times> real) list \<Rightarrow> PlacedState list" where
  "rollback_loads ps [] = ps"
| "rollback_loads ps ((idx, added) # rest) =
     rollback_loads (ps[idx := (ps ! idx)\<lparr>load_on_top := load_on_top (ps ! idx) - added\<rparr>]) rest"

section \<open>Candidate point store\<close>

text \<open>\<open>std::llround\<close>: round to nearest, halfway cases away from zero.\<close>

definition llround :: "real \<Rightarrow> int" where
  "llround v = (if v \<ge> 0 then \<lfloor>v + 1 / 2\<rfloor> else - \<lfloor>- v + 1 / 2\<rfloor>)"

definition key :: "Candidate \<Rightarrow> int \<times> int \<times> int" where
  "key c = (llround (cand_x c * 100000), llround (cand_y c * 100000), llround (cand_z c * 100000))"

text \<open>\<open>operator<\<close> of \<open>std::tuple\<close>: lexicographic.\<close>

fun key_less :: "int \<times> int \<times> int \<Rightarrow> int \<times> int \<times> int \<Rightarrow> bool" where
  "key_less (a1, a2, a3) (b1, b2, b3) =
     (a1 < b1 \<or> (a1 = b1 \<and> (a2 < b2 \<or> (a2 = b2 \<and> a3 < b3))))"

text \<open>
  Sorting. \<open>insort_by lt x ys\<close> puts \<open>x\<close> in front of the first element that is not
  strictly below it, so \<open>stable_sort_by\<close> keeps equivalent elements in their input order,
  as \<open>std::stable_sort\<close> does. \<open>std::sort\<close> leaves the order of equivalent elements open;
  \<open>std_sort\<close> takes the stable order as the one the library produces.
\<close>

fun insort_by :: "('a \<Rightarrow> 'a \<Rightarrow> bool) \<Rightarrow> 'a \<Rightarrow> 'a list \<Rightarrow> 'a list" where
  "insort_by lt x [] = [x]"
| "insort_by lt x (y # ys) = (if lt y x then y # insort_by lt x ys else x # y # ys)"

fun stable_sort_by :: "('a \<Rightarrow> 'a \<Rightarrow> bool) \<Rightarrow> 'a list \<Rightarrow> 'a list" where
  "stable_sort_by lt [] = []"
| "stable_sort_by lt (x # xs) = insort_by lt x (stable_sort_by lt xs)"

definition std_sort :: "('a \<Rightarrow> 'a \<Rightarrow> bool) \<Rightarrow> 'a list \<Rightarrow> 'a list" where
  "std_sort lt xs = stable_sort_by lt xs"

text \<open>\<open>std::unique\<close> followed by \<open>erase\<close>: of each run of equivalent neighbours the first stays.\<close>

fun std_unique :: "('a \<Rightarrow> 'a \<Rightarrow> bool) \<Rightarrow> 'a list \<Rightarrow> 'a list" where
  "std_unique eq [] = []"
| "std_unique eq [x] = [x]"
| "std_unique eq (x # y # ys) =
     (if eq x y then std_unique eq (x # ys) else x # std_unique eq (y # ys))"

definition yzx_less :: "Candidate \<Rightarrow> Candidate \<Rightarrow> bool" where
  "yzx_less a b =
     (if cand_y a \<noteq> cand_y b then cand_y a < cand_y b
      else if cand_z a \<noteq> cand_z b then cand_z a < cand_z b
      else cand_x a < cand_x b)"

definition quantized_dedup :: "Candidate list \<Rightarrow> Candidate list" where
  "quantized_dedup cs =
     std_unique (\<lambda>a b. key a = key b) (std_sort (\<lambda>a b. key_less (key a) (key b)) cs)"

definition unique_candidates :: "Candidate list \<Rightarrow> Candidate list" where
  "unique_candidates cs =
     (let cs1 = quantized_dedup cs
      in if length cs1 > kMaxCandidates
         then take kMaxCandidates (stable_sort_by yzx_less cs1)
         else cs1)"

definition add_candidate :: "Candidate list \<Rightarrow> real \<Rightarrow> real \<Rightarrow> real \<Rightarrow> Candidate list" where
  "add_candidate cs x y z =
     (if x < - kEps \<or> y < - kEps \<or> z < - kEps then cs
      else cs @ [\<lparr>cand_x = x, cand_y = y, cand_z = z\<rparr>])"

section \<open>Rounding to double\<close>

text \<open>
  \<open>fl x\<close> is the double nearest to \<open>x\<close>: \<open>x\<close> is scaled to a significand of 53 bits
  (between \<open>2^52\<close> and \<open>2^53\<close>), the significand is rounded to the nearest integer, a
  tie goes to the even one, and the sign is kept. The exponent range is not bounded:
  overflow to infinity and the coarser grid of the subnormal numbers are left out (a sum
  or difference of two doubles that falls among the subnormal numbers is exact in IEEE 754
  and here).
\<close>

definition round_even :: "real \<Rightarrow> int" where
  "round_even t =
     (let f = \<lfloor>t\<rfloor>; r = t - of_int f
      in if r < 1 / 2 then f else if r > 1 / 2 then f + 1 else if even f then f else f + 1)"

definition flp :: "real \<Rightarrow> real" where
  "flp x =
     (let q = 2 powr (of_int \<lfloor>log 2 x\<rfloor> - 52)
      in q * of_int (round_even (x / q)))"

definition fl :: "real \<Rightarrow> real" where
  "fl x = (if x = 0 then 0 else if x > 0 then flp x else - flp (- x))"

section \<open>Constructive packer\<close>

text \<open>
  The state of the per-box sweep over candidate points and orientations: the flag
  \<open>found\<close>, the AABB \<open>best\<close>, the loads \<open>best_loads\<close> that \<open>best\<close> has applied, and the
  vector \<open>placed\<close>, whose \<open>load_on_top\<close> fields the sweep mutates.
\<close>

record Search =
  found :: bool
  best :: AABB
  best_loads :: "(nat \<times> real) list"
  s_placed :: "PlacedState list"

definition collides_any :: "PlacedState list \<Rightarrow> AABB \<Rightarrow> bool" where
  "collides_any ps a = list_ex (\<lambda>p. intersects a (ps_box p)) ps"

definition better :: "AABB \<Rightarrow> AABB \<Rightarrow> bool" where
  "better a b =
     (if ay a \<noteq> ay b then ay a < ay b
      else if az a \<noteq> az b then az a < az b
      else ax a < ax b)"

definition rots :: "Box \<Rightarrow> (real \<times> real \<times> real) list" where
  "rots box =
     [(box_w box, box_h box, box_d box),
      (box_w box, box_d box, box_h box),
      (box_h box, box_w box, box_d box),
      (box_h box, box_d box, box_w box),
      (box_d box, box_w box, box_h box),
      (box_d box, box_h box, box_w box)]"

definition mk_candidate :: "Candidate \<Rightarrow> real \<times> real \<times> real \<Rightarrow> AABB" where
  "mk_candidate cand r =
     \<lparr>ax = cand_x cand, ay = cand_y cand, az = cand_z cand,
      aw = fst r, ah = fst (snd r), ad = snd (snd r)\<rparr>"

text \<open>The body of the inner loop of \<open>pack_by_order\<close> for one candidate AABB.\<close>

definition try_candidate :: "Truck \<Rightarrow> real \<Rightarrow> Search \<Rightarrow> AABB \<Rightarrow> Search" where
  "try_candidate truck weight s candidate =
     (if \<not> inside_truck truck candidate then s
      else if collides_any (s_placed s) candidate then s
      else
        case support_ok_and_apply_load candidate weight (s_placed s) of
          (ok, ps1, applied) \<Rightarrow>
            if \<not> ok then s\<lparr>s_placed := rollback_loads ps1 applied\<rparr>
            else if \<not> found s \<or> better candidate (best s) then
              \<lparr>found = True, best = candidate, best_loads = applied,
               s_placed = (if found s then rollback_loads ps1 (best_loads s) else ps1)\<rparr>
            else s\<lparr>s_placed := rollback_loads ps1 applied\<rparr>)"

definition sweep_rots :: "Truck \<Rightarrow> Box \<Rightarrow> Search \<Rightarrow> Candidate \<Rightarrow> Search" where
  "sweep_rots truck box s cand =
     foldl (\<lambda>s r. try_candidate truck (box_weight box) s (mk_candidate cand r)) s (rots box)"

definition sweep :: "Truck \<Rightarrow> Box \<Rightarrow> Candidate list \<Rightarrow> PlacedState list \<Rightarrow> Search" where
  "sweep truck box cands ps =
     foldl (sweep_rots truck box)
       \<lparr>found = False,
        best = \<lparr>ax = 0, ay = 0, az = 0, aw = 0, ah = 0, ad = 0\<rparr>,
        best_loads = [], s_placed = ps\<rparr> cands"

record PackState =
  st_placed :: "PlacedState list"
  st_candidates :: "Candidate list"
  st_remaining_weight :: real
  st_result :: Result

definition accept_best :: "Box \<Rightarrow> Candidate list \<Rightarrow> Search \<Rightarrow> PackState \<Rightarrow> PackState" where
  "accept_best box cands s st =
     (let b = best s; r = st_result st
      in \<lparr>st_placed = s_placed s @
             [\<lparr>ps_box = b, ps_id = box_id box, ps_weight = box_weight box,
               max_load = max_load_for (box_weight box) (aw b * ad b), load_on_top = 0\<rparr>],
          st_candidates =
            add_candidate
              (add_candidate
                 (add_candidate cands (ax b + aw b) (ay b) (az b))
                 (ax b) (ay b) (az b + ad b))
              (ax b) (ay b + ah b) (az b),
          st_remaining_weight = fl (st_remaining_weight st - box_weight box),
          st_result = r
            \<lparr>placed := placed r @
               [\<lparr>pl_id = box_id box, pl_x = ax b, pl_y = ay b, pl_z = az b,
                 pl_w = aw b, pl_h = ah b, pl_d = ad b\<rparr>],
             used_volume := used_volume r + volume (aw b) (ah b) (ad b),
             total_weight := fl (total_weight r + box_weight box)\<rparr>\<rparr>)"

definition record_unplaced :: "Box \<Rightarrow> PackState \<Rightarrow> PackState" where
  "record_unplaced box st =
     st\<lparr>st_result := (st_result st)\<lparr>unplaced := unplaced (st_result st) @ [box_id box]\<rparr>\<rparr>"

text \<open>
  One iteration of \<open>for (size_t idx : order)\<close>. \<open>boxes[idx]\<close> has undefined behaviour in
  C++ when \<open>idx\<close> is out of range; the theorems below are about orders whose entries are
  indices of \<open>boxes\<close>.
\<close>

definition pack_step :: "Truck \<Rightarrow> Box list \<Rightarrow> PackState \<Rightarrow> nat \<Rightarrow> PackState" where
  "pack_step truck boxes st idx =
     (let box = boxes ! idx
      in if box_weight box > fl (st_remaining_weight st + fl slack9) then record_unplaced box st
         else
           let cands = unique_candidates (st_candidates st);
               s = sweep truck box cands (st_placed st)
           in if \<not> found s
              then record_unplaced box (st\<lparr>st_placed := s_placed s, st_candidates := cands\<rparr>)
              else accept_best box cands s st)"

definition init_state :: "Truck \<Rightarrow> Box list \<Rightarrow> PackState" where
  "init_state truck boxes =
     \<lparr>st_placed = [],
      st_candidates = [\<lparr>cand_x = 0, cand_y = 0, cand_z = 0\<rparr>],
      st_remaining_weight = truck_max_weight truck,
      st_result =
        \<lparr>placed = [], unplaced = [], used_volume = 0,
         total_volume = foldl (\<lambda>acc box. acc + volume (box_w box) (box_h box) (box_d box)) 0 boxes,
         utilization = 0, total_weight = 0\<rparr>\<rparr>"

text \<open>The packer's state when the loop over \<open>order\<close> ends.\<close>

definition pack_loop :: "Truck \<Rightarrow> Box list \<Rightarrow> nat list \<Rightarrow> PackState" where
  "pack_loop truck boxes order = foldl (pack_step truck boxes) (init_state truck boxes) order"

definition pack_by_order :: "Truck \<Rightarrow> Box list \<Rightarrow> nat list \<Rightarrow> Result" where
  "pack_by_order truck boxes order =
     (let r = st_result (pack_loop truck boxes order);
          tv = truck_w truck * truck_h truck * truck_d truck
      in r\<lparr>utilization := (if tv > 0 then used_volume r / tv else 0)\<rparr>)"

definition score_result :: "Result \<Rightarrow> real" where
  "score_result r = utilization r * 100 - real (length (unplaced r)) * (1 / 2)"

section \<open>GA driver\<close>

text \<open>
  The driver draws all its randomness from one \<open>std::mt19937\<close>. The generator, the two
  distributions and \<open>std::shuffle\<close> are library code; they are parameters of the model:
  \<open>mt19937 seed\<close> is the seeded generator state, and every draw takes the state and
  returns the drawn value with the next state.
\<close>

record 's Rng =
  mt19937 :: "32 word \<Rightarrow> 's"
  uniform_real :: "'s \<Rightarrow> real \<times> 's"
  uniform_int :: "nat \<Rightarrow> nat \<Rightarrow> 's \<Rightarrow> nat \<times> 's"
  shuffle :: "nat list \<Rightarrow> 's \<Rightarrow> nat list \<times> 's"

text \<open>
  What the C++ standard guarantees of these: \<open>uniform_int_distribution(lo, hi)\<close> draws from
  the closed range, and \<open>std::shuffle\<close> permutes its range.
\<close>

definition rng_ok :: "'s Rng \<Rightarrow> bool" where
  "rng_ok L =
     ((\<forall>lo hi g. lo \<le> hi \<longrightarrow> lo \<le> fst (uniform_int L lo hi g) \<and> fst (uniform_int L lo hi g) \<le> hi)
      \<and> (\<forall>xs g. mset (fst (shuffle L xs g)) = mset xs))"

record Individual =
  ind_order :: "nat list"
  ind_score :: real
  ind_result :: Result

definition heuristic_less :: "Box list \<Rightarrow> nat \<Rightarrow> nat \<Rightarrow> bool" where
  "heuristic_less boxes a b =
     (let A = boxes ! a; B = boxes ! b;
          va = volume (box_w A) (box_h A) (box_d A);
          vb = volume (box_w B) (box_h B) (box_d B)
      in if \<bar>va - vb\<bar> > 1 / 1000000000000 then va > vb
         else box_priority A > box_priority B)"

definition evaluate :: "Truck \<Rightarrow> Box list \<Rightarrow> nat list \<Rightarrow> Individual" where
  "evaluate truck boxes ord =
     (let r = pack_by_order truck boxes ord
      in \<lparr>ind_order = ord, ind_score = score_result r, ind_result = r\<rparr>)"

text \<open>\<open>make_individual(false)\<close> and \<open>make_individual(true)\<close>.\<close>

definition heuristic_individual :: "Truck \<Rightarrow> Box list \<Rightarrow> Individual" where
  "heuristic_individual truck boxes =
     evaluate truck boxes (stable_sort_by (heuristic_less boxes) [0..<length boxes])"

definition random_individual :: "'s Rng \<Rightarrow> Truck \<Rightarrow> Box list \<Rightarrow> 's \<Rightarrow> Individual \<times> 's" where
  "random_individual L truck boxes g =
     (case shuffle L [0..<length boxes] g of (ord, g1) \<Rightarrow> (evaluate truck boxes ord, g1))"

text \<open>\<open>while (pop.size() < population) pop.push_back(make_individual(true))\<close>, \<open>k\<close> rounds.\<close>

fun random_individuals ::
  "'s Rng \<Rightarrow> Truck \<Rightarrow> Box list \<Rightarrow> nat \<Rightarrow> 's \<Rightarrow> Individual list \<times> 's" where
  "random_individuals L truck boxes 0 g = ([], g)"
| "random_individuals L truck boxes (Suc k) g =
     (case random_individual L truck boxes g of
        (ind, g1) \<Rightarrow>
          (case random_individuals L truck boxes k g1 of (rest, g2) \<Rightarrow> (ind # rest, g2)))"

text \<open>Tournament selection: three draws, a later draw wins only with a strictly higher score.\<close>

definition select_parent :: "'s Rng \<Rightarrow> Individual list \<Rightarrow> int \<Rightarrow> 's \<Rightarrow> Individual \<times> 's" where
  "select_parent L pop population g =
     (case uniform_int L 0 (nat (population - 1)) g of
        (i1, g1) \<Rightarrow>
          (case uniform_int L 0 (nat (population - 1)) g1 of
             (i2, g2) \<Rightarrow>
               (case uniform_int L 0 (nat (population - 1)) g2 of
                  (i3, g3) \<Rightarrow>
                    (let b1 = pop ! i1;
                         b2 = (if ind_score (pop ! i2) > ind_score b1 then pop ! i2 else b1);
                         b3 = (if ind_score (pop ! i3) > ind_score b2 then pop ! i3 else b2)
                     in (b3, g3)))))"

text \<open>\<open>static_cast<size_t>(-1)\<close>, the mark of an empty child position (64-bit \<open>size_t\<close>).\<close>

definition SIZE_MAX :: nat where
  "SIZE_MAX = 2 ^ 64 - 1"

text \<open>\<open>for (k = i; k <= j; ++k) { child[k] = a.order[k]; used.insert(child[k]); }\<close>\<close>

definition copy_slice :: "nat list \<Rightarrow> nat \<Rightarrow> nat \<Rightarrow> nat list \<Rightarrow> nat list \<times> nat set" where
  "copy_slice a i j child =
     fold (\<lambda>k (child, used). (child[k := a ! k], insert (a ! k) used)) [i..<Suc j] (child, {})"

text \<open>\<open>while (write < n && child[write] != size_t(-1)) ++write;\<close>\<close>

function advance_write :: "nat list \<Rightarrow> nat \<Rightarrow> nat \<Rightarrow> nat" where
  "advance_write child n write =
     (if write < n \<and> child ! write \<noteq> SIZE_MAX then advance_write child n (Suc write)
      else write)"
  by pat_completeness auto
termination
  by (relation "measure (\<lambda>(child, n, write). n - write)") auto

definition fill_gene :: "nat \<Rightarrow> nat set \<Rightarrow> nat list \<times> nat \<Rightarrow> nat \<Rightarrow> nat list \<times> nat" where
  "fill_gene n used st gene =
     (case st of
        (child, write) \<Rightarrow>
          if gene \<in> used then (child, write)
          else
            let write1 = advance_write child n write
            in if write1 < n then (child[write1 := gene], write1) else (child, write1))"

text \<open>
  Ordered crossover for cut points \<open>i\<close>, \<open>j\<close> already drawn: the swap, the copy of
  \<open>a.order[i..j]\<close> and the fill from \<open>b.order\<close>.
\<close>

definition crossover_at :: "nat \<Rightarrow> nat list \<Rightarrow> nat list \<Rightarrow> nat \<Rightarrow> nat \<Rightarrow> nat list" where
  "crossover_at n a b i0 j0 =
     (let i = (if i0 > j0 then j0 else i0);
          j = (if i0 > j0 then i0 else j0)
      in case copy_slice a i j (replicate n SIZE_MAX) of
           (child, used) \<Rightarrow>
             fst (fold (\<lambda>k st. fill_gene n used st (b ! k)) [0..<n] (child, 0)))"

definition crossover :: "'s Rng \<Rightarrow> nat \<Rightarrow> Individual \<Rightarrow> Individual \<Rightarrow> 's \<Rightarrow> nat list \<times> 's" where
  "crossover L n a b g =
     (case uniform_int L 0 (n - 1) g of
        (i, g1) \<Rightarrow>
          (case uniform_int L 0 (n - 1) g1 of
             (j, g2) \<Rightarrow> (crossover_at n (ind_order a) (ind_order b) i j, g2)))"

definition mutate :: "'s Rng \<Rightarrow> nat \<Rightarrow> real \<Rightarrow> nat list \<Rightarrow> 's \<Rightarrow> nat list \<times> 's" where
  "mutate L n mutation_rate ord g =
     (case uniform_real L g of
        (u, g1) \<Rightarrow>
          if u > mutation_rate then (ord, g1)
          else
            (case uniform_int L 0 (n - 1) g1 of
               (a, g2) \<Rightarrow>
                 (case uniform_int L 0 (n - 1) g2 of
                    (b, g3) \<Rightarrow> ((ord[a := ord ! b])[b := ord ! a], g3))))"

text \<open>One round of \<open>while (next.size() < population)\<close>: a child, evaluated.\<close>

definition make_child ::
  "'s Rng \<Rightarrow> Truck \<Rightarrow> Box list \<Rightarrow> int \<Rightarrow> real \<Rightarrow> Individual list \<Rightarrow> 's \<Rightarrow> Individual \<times> 's" where
  "make_child L truck boxes population mutation_rate pop g =
     (case select_parent L pop population g of
        (p1, g1) \<Rightarrow>
          (case select_parent L pop population g1 of
             (p2, g2) \<Rightarrow>
               (case crossover L (length boxes) p1 p2 g2 of
                  (c, g3) \<Rightarrow>
                    (case mutate L (length boxes) mutation_rate c g3 of
                       (c1, g4) \<Rightarrow> (evaluate truck boxes c1, g4)))))"

fun make_children ::
  "'s Rng \<Rightarrow> Truck \<Rightarrow> Box list \<Rightarrow> int \<Rightarrow> real \<Rightarrow> Individual list \<Rightarrow> nat \<Rightarrow> 's
     \<Rightarrow> Individual list \<times> 's" where
  "make_children L truck boxes population mutation_rate pop 0 g = ([], g)"
| "make_children L truck boxes population mutation_rate pop (Suc k) g =
     (case make_child L truck boxes population mutation_rate pop g of
        (c, g1) \<Rightarrow>
          (case make_children L truck boxes population mutation_rate pop k g1 of
             (rest, g2) \<Rightarrow> (c # rest, g2)))"

definition score_greater :: "Individual \<Rightarrow> Individual \<Rightarrow> bool" where
  "score_greater x y = (ind_score x > ind_score y)"

text \<open>The body of \<open>for (int gen = 0; gen < generations; ++gen)\<close>.\<close>

definition generation ::
  "'s Rng \<Rightarrow> Truck \<Rightarrow> Box list \<Rightarrow> int \<Rightarrow> real \<Rightarrow> Individual list \<times> 's \<Rightarrow> Individual list \<times> 's" where
  "generation L truck boxes population mutation_rate st =
     (case st of
        (pop, g) \<Rightarrow>
          let sorted_pop = std_sort score_greater pop;
              elite = max 1 (population div 10);
              elites = take (nat elite) sorted_pop
          in case make_children L truck boxes population mutation_rate sorted_pop
                    (nat population - length elites) g of
               (children, g1) \<Rightarrow> (elites @ children, g1))"

fun generations_loop ::
  "'s Rng \<Rightarrow> Truck \<Rightarrow> Box list \<Rightarrow> int \<Rightarrow> real \<Rightarrow> nat \<Rightarrow> Individual list \<times> 's
     \<Rightarrow> Individual list \<times> 's" where
  "generations_loop L truck boxes population mutation_rate 0 st = st"
| "generations_loop L truck boxes population mutation_rate (Suc k) st =
     generations_loop L truck boxes population mutation_rate k
       (generation L truck boxes population mutation_rate st)"

text \<open>The budget caps of \<open>optimize_ga\<close>, and the floors applied after them.\<close>

definition cap_population :: "nat \<Rightarrow> int \<Rightarrow> int" where
  "cap_population n population =
     max (if n > 250 then min population 10
          else if n > 150 then min population 18
          else min population 30) 4"

definition cap_generations :: "nat \<Rightarrow> int \<Rightarrow> int" where
  "cap_generations n generations =
     max (if n > 250 then min generations 6
          else if n > 150 then min generations 12
          else min generations 25) 1"

definition empty_result :: Result where
  "empty_result =
     \<lparr>placed = [], unplaced = [], used_volume = 0, total_volume = 0, utilization = 0,
      total_weight = 0\<rparr>"

text \<open>The population when the generational loop has ended, before the last sort.\<close>

definition final_population ::
  "'s Rng \<Rightarrow> Truck \<Rightarrow> Box list \<Rightarrow> int \<Rightarrow> int \<Rightarrow> real \<Rightarrow> 32 word \<Rightarrow> Individual list" where
  "final_population L truck boxes population0 generations0 mutation_rate seed =
     (let population = cap_population (length boxes) population0;
          generations = cap_generations (length boxes) generations0;
          g0 = mt19937 L seed;
          first = heuristic_individual truck boxes
      in case random_individuals L truck boxes (nat population - 1) g0 of
           (others, g1) \<Rightarrow>
             fst (generations_loop L truck boxes population mutation_rate (nat generations)
                    (first # others, g1)))"

definition optimize_ga ::
  "'s Rng \<Rightarrow> Truck \<Rightarrow> Box list \<Rightarrow> int \<Rightarrow> int \<Rightarrow> real \<Rightarrow> 32 word \<Rightarrow> Result" where
  "optimize_ga L truck boxes population generations mutation_rate seed =
     (if boxes = [] then empty_result
      else
        ind_result
          (hd (std_sort score_greater
                 (final_population L truck boxes population generations mutation_rate seed))))"

section \<open>Request adapter (engine_bindings.cpp)\<close>

text \<open>
  The typed request after \<open>truck_from_dict\<close> and \<open>box_from_any\<close>: a truck, the boxes and the
  optional parameters. The error kinds are those the specification names; the lambda
  bound to \<open>optimize\<close> has no branch that raises one, so \<open>Inr\<close> is the only result.
\<close>

datatype error = InvalidGeometry | InvalidParams | DuplicateId

record Params =
  p_population :: "int option"
  p_generations :: "int option"
  p_mutation_rate :: "real option"
  p_seed :: "32 word option"

definition optimize :: "'s Rng \<Rightarrow> Truck \<Rightarrow> Box list \<Rightarrow> Params \<Rightarrow> error + Result" where
  "optimize L t b params =
     (let population = (case p_population params of Some v \<Rightarrow> v | None \<Rightarrow> 40);
          generations = (case p_generations params of Some v \<Rightarrow> v | None \<Rightarrow> 40);
          mutation_rate = (case p_mutation_rate params of Some v \<Rightarrow> v | None \<Rightarrow> 8 / 100);
          seed = (case p_seed params of Some v \<Rightarrow> v | None \<Rightarrow> 12345)
      in Inr (optimize_ga L t b population generations mutation_rate seed))"

text \<open>A comparator that is a strict weak order: the condition C++ puts on it.\<close>

definition strict_weak :: "('a \<Rightarrow> 'a \<Rightarrow> bool) \<Rightarrow> bool" where
  "strict_weak lt =
     ((\<forall>a b. lt a b \<longrightarrow> \<not> lt b a)
      \<and> (\<forall>a b c. \<not> lt b a \<longrightarrow> \<not> lt c b \<longrightarrow> \<not> lt c a))"

section \<open>Valid inputs\<close>

text \<open>
  The inputs the specification calls valid: a truck with positive extents and positive
  \<open>max_weight\<close>, boxes with positive extents and non-negative weight, and an order that
  is a permutation of the box indices.
\<close>

definition valid_truck :: "Truck \<Rightarrow> bool" where
  "valid_truck t = (truck_w t > 0 \<and> truck_h t > 0 \<and> truck_d t > 0 \<and> truck_max_weight t > 0)"

definition valid_box :: "Box \<Rightarrow> bool" where
  "valid_box b = (box_w b > 0 \<and> box_h b > 0 \<and> box_d b > 0 \<and> box_weight b \<ge> 0)"

definition valid_input :: "Truck \<Rightarrow> Box list \<Rightarrow> nat list \<Rightarrow> bool" where
  "valid_input t boxes ord =
     (valid_truck t \<and> list_all valid_box boxes \<and> mset ord = mset [0..<length boxes])"

text \<open>The AABB of an output placement, and a placed state with its load accumulator cleared.\<close>

definition placement_box :: "Placement \<Rightarrow> AABB" where
  "placement_box p =
     \<lparr>ax = pl_x p, ay = pl_y p, az = pl_z p, aw = pl_w p, ah = pl_h p, ad = pl_d p\<rparr>"

definition unload :: "PlacedState \<Rightarrow> PlacedState" where
  "unload p = p\<lparr>load_on_top := 0\<rparr>"

section \<open>Invariants of the packer\<close>

text \<open>What the sweep knows of \<open>best\<close> once \<open>found\<close> is set.\<close>

definition best_fits :: "Truck \<Rightarrow> PlacedState list \<Rightarrow> Search \<Rightarrow> bool" where
  "best_fits truck ps s = (found s \<longrightarrow> inside_truck truck (best s) \<and> \<not> collides_any ps (best s))"

text \<open>Every accumulator is within its budget, up to the slack of the crush check.\<close>

definition loads_ok :: "PlacedState list \<Rightarrow> bool" where
  "loads_ok ps = list_all (\<lambda>p. load_on_top p \<le> max_load p + slack9) ps"

text \<open>The loads a rollback list subtracts are not negative.\<close>

definition nonneg_loads :: "(nat \<times> real) list \<Rightarrow> bool" where
  "nonneg_loads applied = list_all (\<lambda>(idx, added). 0 \<le> added) applied"

text \<open>The invariant of the sweep on the accumulators.\<close>

definition sweep_loads_ok :: "Search \<Rightarrow> bool" where
  "sweep_loads_ok s = (loads_ok (s_placed s) \<and> nonneg_loads (best_loads s))"

text \<open>The budget recorded in a placed state is the one \<open>max_load_for\<close> gives its box.\<close>

definition budget_ok :: "PlacedState \<Rightarrow> bool" where
  "budget_ok p = (max_load p = max_load_for (ps_weight p) (aw (ps_box p) * ad (ps_box p)))"

text \<open>
  What holds of the packer's state after every iteration: the placed boxes are pairwise
  apart and inside the truck, the result lists the same boxes, and the accumulators are
  within their budgets.
\<close>

definition pack_inv :: "Truck \<Rightarrow> PackState \<Rightarrow> bool" where
  "pack_inv truck st =
     (sorted_wrt (\<lambda>a b. \<not> intersects a b) (map ps_box (st_placed st))
      \<and> list_all (inside_truck truck) (map ps_box (st_placed st))
      \<and> map placement_box (placed (st_result st)) = map ps_box (st_placed st)
      \<and> map pl_id (placed (st_result st)) = map ps_id (st_placed st)
      \<and> loads_ok (st_placed st)
      \<and> list_all budget_ok (st_placed st))"

text \<open>
  The weight counters after every iteration, for the budget \<open>M = truck.max_weight\<close>, the
  slack \<open>1e-9\<close> (the double) and the unit roundoff \<open>2^-53\<close>: \<open>remaining_weight\<close> stays at or below \<open>M\<close>
  and above \<open>-1e-9\<close> less three roundoffs of \<open>M + 1e-9\<close>, and the placed weights sum to at
  most \<open>M - remaining_weight\<close> plus two such roundoffs for each placed box.
\<close>

definition weight_inv :: "Truck \<Rightarrow> PackState \<Rightarrow> bool" where
  "weight_inv truck st =
     (st_remaining_weight st \<le> truck_max_weight truck
      \<and> - fl slack9 - 3 * ((truck_max_weight truck + fl slack9) / 2 ^ 53)
           \<le> st_remaining_weight st
      \<and> sum_list (map ps_weight (st_placed st))
          \<le> truck_max_weight truck - st_remaining_weight st
            + 2 * real (length (st_placed st))
              * ((truck_max_weight truck + fl slack9) / 2 ^ 53))"

text \<open>
  After the indices \<open>pre\<close> have been processed, the placed states are the boxes of some
  indices \<open>is\<close>, in order, the unplaced ids are the ids of some indices \<open>js\<close>, and \<open>is\<close> and
  \<open>js\<close> together are \<open>pre\<close>.
\<close>

definition part_inv :: "Box list \<Rightarrow> nat list \<Rightarrow> PackState \<Rightarrow> bool" where
  "part_inv boxes pre st =
     (\<exists>is js. mset is + mset js = mset pre
        \<and> map ps_id (st_placed st) = map (\<lambda>i. box_id (boxes ! i)) is
        \<and> map ps_weight (st_placed st) = map (\<lambda>i. box_weight (boxes ! i)) is
        \<and> map pl_id (placed (st_result st)) = map (\<lambda>i. box_id (boxes ! i)) is
        \<and> unplaced (st_result st) = map (\<lambda>i. box_id (boxes ! i)) js)"

text \<open>An individual whose score and result are those of packing its order.\<close>

definition evaluated :: "Truck \<Rightarrow> Box list \<Rightarrow> Individual \<Rightarrow> bool" where
  "evaluated truck boxes i = (i = evaluate truck boxes (ind_order i))"


text \<open>An individual whose order is a permutation of the box indices.\<close>

definition perm_order :: "Box list \<Rightarrow> Individual \<Rightarrow> bool" where
  "perm_order boxes i = (mset (ind_order i) = mset [0..<length boxes])"

text \<open>The invariant of the population: its size, and what holds of every individual.\<close>

definition pop_ok :: "Truck \<Rightarrow> Box list \<Rightarrow> int \<Rightarrow> Individual list \<Rightarrow> bool" where
  "pop_ok truck boxes population pop =
     (length pop = nat population
      \<and> list_all (evaluated truck boxes) pop \<and> list_all (perm_order boxes) pop)"

section \<open>Concrete inputs\<close>

definition ex_floor :: PlacedState where
  "ex_floor = \<lparr>ps_box = \<lparr>ax = 0, ay = 0, az = 0, aw = 1, ah = 1, ad = 1\<rparr>, ps_id = ''A'',
     ps_weight = 1, max_load = 6, load_on_top = 0\<rparr>"

definition ex_top :: AABB where
  "ex_top = \<lparr>ax = 0, ay = 1, az = 0, aw = 1, ah = 1, ad = 1\<rparr>"

definition ex2_truck :: Truck where
  "ex2_truck = \<lparr>truck_w = 1, truck_h = 2, truck_d = 1, truck_max_weight = 100\<rparr>"

definition ex2_boxes :: "Box list" where
  "ex2_boxes =
     [\<lparr>box_id = ''A'', box_w = 1, box_h = 1, box_d = 1, box_weight = 1, box_priority = 1\<rparr>,
      \<lparr>box_id = ''B'', box_w = 1, box_h = 1, box_d = 1, box_weight = 6 + 1 / 2000000000,
        box_priority = 1\<rparr>]"

definition ex2_small_truck :: Truck where
  "ex2_small_truck = \<lparr>truck_w = 1, truck_h = 2, truck_d = 1, truck_max_weight = 5\<rparr>"

definition ex2_bottom :: PlacedState where
  "ex2_bottom =
     \<lparr>ps_box = \<lparr>ax = 0, ay = 0, az = 0, aw = 1, ah = 1, ad = 1\<rparr>, ps_id = ''A'',
      ps_weight = 1, max_load = 6, load_on_top = 6 + 1 / 2000000000\<rparr>"

definition ex2_upper :: PlacedState where
  "ex2_upper =
     \<lparr>ps_box = \<lparr>ax = 0, ay = 1, az = 0, aw = 1, ah = 1, ad = 1\<rparr>, ps_id = ''B'',
      ps_weight = 6 + 1 / 2000000000, max_load = 36 + 3 / 1000000000, load_on_top = 0\<rparr>"

definition ex3_truck :: Truck where
  "ex3_truck = \<lparr>truck_w = 2, truck_h = 2, truck_d = 2, truck_max_weight = 100\<rparr>"

definition ex3_boxes :: "Box list" where
  "ex3_boxes =
     [\<lparr>box_id = ''S'', box_w = 2, box_h = 1, box_d = 2, box_weight = 1, box_priority = 1\<rparr>,
      \<lparr>box_id = ''T'', box_w = 1, box_h = 1, box_d = 1, box_weight = 1, box_priority = 1\<rparr>,
      \<lparr>box_id = ''B'', box_w = 1, box_h = 1, box_d = 1, box_weight = 3, box_priority = 1\<rparr>]"

text \<open>The packer's state when S and T are placed, before B is processed.\<close>

definition ex3_before :: PackState where
  "ex3_before =
     \<lparr>st_placed =
        [\<lparr>ps_box = \<lparr>ax = 0, ay = 0, az = 0, aw = 2, ah = 1, ad = 2\<rparr>, ps_id = ''S'',
          ps_weight = 1, max_load = 6, load_on_top = 1\<rparr>,
         \<lparr>ps_box = \<lparr>ax = 0, ay = 1, az = 0, aw = 1, ah = 1, ad = 1\<rparr>, ps_id = ''T'',
          ps_weight = 1, max_load = 6, load_on_top = 0\<rparr>],
      st_candidates =
        [\<lparr>cand_x = 0, cand_y = 0, cand_z = 0\<rparr>,
         \<lparr>cand_x = 0, cand_y = 0, cand_z = 2\<rparr>,
         \<lparr>cand_x = 0, cand_y = 1, cand_z = 0\<rparr>,
         \<lparr>cand_x = 2, cand_y = 0, cand_z = 0\<rparr>,
         \<lparr>cand_x = 1, cand_y = 1, cand_z = 0\<rparr>,
         \<lparr>cand_x = 0, cand_y = 1, cand_z = 1\<rparr>,
         \<lparr>cand_x = 0, cand_y = 2, cand_z = 0\<rparr>],
      st_remaining_weight = 98,
      st_result =
        \<lparr>placed =
           [\<lparr>pl_id = ''S'', pl_x = 0, pl_y = 0, pl_z = 0, pl_w = 2, pl_h = 1, pl_d = 2\<rparr>,
            \<lparr>pl_id = ''T'', pl_x = 0, pl_y = 1, pl_z = 0, pl_w = 1, pl_h = 1, pl_d = 1\<rparr>],
         unplaced = [], used_volume = 5, total_volume = 6, utilization = 0,
         total_weight = 2\<rparr>\<rparr>"

text \<open>The placement of B the sweep accepts, and the one it passes over.\<close>

definition ex3_accepted :: AABB where
  "ex3_accepted = \<lparr>ax = 0, ay = 1, az = 1, aw = 1, ah = 1, ad = 1\<rparr>"

definition ex3_missed :: AABB where
  "ex3_missed = \<lparr>ax = 1, ay = 1, az = 0, aw = 1, ah = 1, ad = 1\<rparr>"

text \<open>A generator that always draws the lower bound and a shuffle that moves nothing.\<close>

definition ex_rng :: "unit Rng" where
  "ex_rng =
     \<lparr>mt19937 = (\<lambda>seed. ()), uniform_real = (\<lambda>g. (0, g)),
      uniform_int = (\<lambda>lo hi g. (lo, g)), shuffle = (\<lambda>xs g. (xs, g))\<rparr>"

definition ex_dup_boxes :: "Box list" where
  "ex_dup_boxes =
     [\<lparr>box_id = ''A'', box_w = 1, box_h = 1, box_d = 1, box_weight = 1, box_priority = 1\<rparr>,
      \<lparr>box_id = ''A'', box_w = 1, box_h = 1, box_d = 1, box_weight = 1, box_priority = 1\<rparr>]"

definition ex_params :: Params where
  "ex_params =
     \<lparr>p_population = None, p_generations = None, p_mutation_rate = None, p_seed = None\<rparr>"

text \<open>A truck whose budget is \<open>2^54\<close>, a box of weight 1 and a box of weight \<open>2^54\<close>.\<close>

definition ex54_truck :: Truck where
  "ex54_truck =
     \<lparr>truck_w = 2, truck_h = 1, truck_d = 1, truck_max_weight = 18014398509481984\<rparr>"

definition ex54_boxes :: "Box list" where
  "ex54_boxes =
     [\<lparr>box_id = ''a'', box_w = 1, box_h = 1, box_d = 1, box_weight = 1, box_priority = 1\<rparr>,
      \<lparr>box_id = ''b'', box_w = 1, box_h = 1, box_d = 1, box_weight = 18014398509481984,
        box_priority = 1\<rparr>]"

section \<open>Rounding to double\<close>

lemma round_even_of_int: "round_even (of_int m) = m"
  by (simp add: round_even_def)

lemma round_even_cases:
  "round_even t = \<lfloor>t\<rfloor> \<and> t - of_int \<lfloor>t\<rfloor> \<le> 1 / 2
   \<or> round_even t = \<lfloor>t\<rfloor> + 1 \<and> t - of_int \<lfloor>t\<rfloor> \<ge> 1 / 2"
  by (auto simp: round_even_def Let_def)

lemma round_even_err: "\<bar>of_int (round_even t) - t\<bar> \<le> 1 / 2"
proof -
  have "of_int \<lfloor>t\<rfloor> \<le> t" "t < of_int \<lfloor>t\<rfloor> + 1" by linarith+
  then show ?thesis using round_even_cases [of t] by auto
qed

lemma round_even_mono:
  assumes "t \<le> t'"
  shows "round_even t \<le> round_even t'"
proof (cases "\<lfloor>t\<rfloor> = \<lfloor>t'\<rfloor>")
  case True
  then show ?thesis using assms by (auto simp: round_even_def Let_def)
next
  case False
  then have "\<lfloor>t\<rfloor> < \<lfloor>t'\<rfloor>" using assms floor_mono [of t t'] by linarith
  moreover have "round_even t \<le> \<lfloor>t\<rfloor> + 1" using round_even_cases [of t] by auto
  moreover have "\<lfloor>t'\<rfloor> \<le> round_even t'" using round_even_cases [of t'] by auto
  ultimately show ?thesis by linarith
qed

text \<open>The exponent of a positive number.\<close>

lemma exponent_bounds:
  assumes "0 < x"
  shows "2 powr of_int \<lfloor>log 2 x\<rfloor> \<le> x" "x < 2 powr (of_int \<lfloor>log 2 x\<rfloor> + 1)"
  using floor_log_eq_powr_iff [of x 2 "\<lfloor>log 2 x\<rfloor>"] assms by simp_all

lemma flp_eq:
  assumes "0 < x" "2 powr of_int e \<le> x" "x < 2 powr (of_int e + 1)"
  shows "flp x = 2 powr (of_int e - 52) * of_int (round_even (x / 2 powr (of_int e - 52)))"
proof -
  have "\<lfloor>log 2 x\<rfloor> = e"
    using floor_log_eq_powr_iff [of x 2 e] assms by simp
  then show ?thesis by (simp add: flp_def Let_def)
qed

lemma flp_err:
  assumes "0 < x"
  shows "\<bar>flp x - x\<bar> \<le> x / 2 ^ 53"
proof -
  define e where "e = \<lfloor>log 2 x\<rfloor>"
  define q where "q = (2::real) powr (of_int e - 52)"
  have q: "0 < q" unfolding q_def by simp
  have "flp x - x = q * (of_int (round_even (x / q)) - x / q)"
    using q by (simp add: flp_def Let_def e_def q_def algebra_simps)
  then have "\<bar>flp x - x\<bar> = q * \<bar>of_int (round_even (x / q)) - x / q\<bar>"
    using q by (simp add: abs_mult)
  also have "\<dots> \<le> q * (1 / 2)"
    using round_even_err [of "x / q"] q by (intro mult_left_mono) simp_all
  also have "q * (1 / 2) = 2 powr of_int e / 2 ^ 53"
  proof -
    have "2 powr (of_int e - 52) = 2 powr of_int e / 2 powr (52::real)"
      by (simp add: powr_diff)
    then show ?thesis unfolding q_def by simp
  qed
  also have "\<dots> \<le> x / 2 ^ 53"
    using exponent_bounds(1) [OF assms] unfolding e_def by (simp add: divide_right_mono)
  finally show ?thesis .
qed

lemma flp_range:
  assumes "0 < x"
  shows "2 powr of_int \<lfloor>log 2 x\<rfloor> \<le> flp x" "flp x \<le> 2 powr (of_int \<lfloor>log 2 x\<rfloor> + 1)"
proof -
  define e where "e = \<lfloor>log 2 x\<rfloor>"
  define q where "q = (2::real) powr (of_int e - 52)"
  have q: "0 < q" unfolding q_def by simp
  have qe: "q * 2 ^ 52 = 2 powr of_int e"
  proof -
    have "2 powr (of_int e - 52) = 2 powr of_int e / 2 powr (52::real)"
      by (simp add: powr_diff)
    then show ?thesis unfolding q_def by simp
  qed
  have qe1: "q * 2 ^ 53 = 2 powr (of_int e + 1)"
    using qe by (simp add: powr_add)
  have lo: "(2::real) ^ 52 \<le> x / q"
    using exponent_bounds(1) [OF assms] qe q unfolding e_def [symmetric]
    by (simp add: pos_le_divide_eq mult.commute)
  have hi: "x / q \<le> (2::real) ^ 53"
    using exponent_bounds(2) [OF assms] qe1 q unfolding e_def [symmetric]
    by (simp add: pos_divide_le_eq mult.commute)
  have "round_even (of_int (2 ^ 52)) \<le> round_even (x / q)"
    using lo by (intro round_even_mono) simp
  then have m_lo: "(2::int) ^ 52 \<le> round_even (x / q)"
    by (simp only: round_even_of_int)
  have "round_even (x / q) \<le> round_even (of_int (2 ^ 53))"
    using hi by (intro round_even_mono) simp
  then have m_hi: "round_even (x / q) \<le> (2::int) ^ 53"
    by (simp only: round_even_of_int)
  have f: "flp x = q * of_int (round_even (x / q))"
    by (simp add: flp_def Let_def e_def q_def)
  have "q * 2 ^ 52 \<le> q * of_int (round_even (x / q))"
  proof (rule mult_left_mono)
    have "(of_int ((2::int) ^ 52) :: real) \<le> of_int (round_even (x / q))"
      using m_lo by (simp only: of_int_le_iff)
    then show "(2::real) ^ 52 \<le> of_int (round_even (x / q))" by simp
    show "0 \<le> q" using q by simp
  qed
  then show "2 powr of_int \<lfloor>log 2 x\<rfloor> \<le> flp x"
    unfolding f e_def [symmetric] qe .
  have "q * of_int (round_even (x / q)) \<le> q * 2 ^ 53"
  proof (rule mult_left_mono)
    have "(of_int (round_even (x / q)) :: real) \<le> of_int ((2::int) ^ 53)"
      using m_hi by (simp only: of_int_le_iff)
    then show "of_int (round_even (x / q)) \<le> (2::real) ^ 53" by simp
    show "0 \<le> q" using q by simp
  qed
  then show "flp x \<le> 2 powr (of_int \<lfloor>log 2 x\<rfloor> + 1)"
    unfolding f e_def [symmetric] qe1 .
qed

lemma flp_pos: "0 < x \<Longrightarrow> 0 < flp x"
proof -
  assume "0 < x"
  then have "2 powr of_int \<lfloor>log 2 x\<rfloor> \<le> flp x" by (rule flp_range(1))
  moreover have "(0::real) < 2 powr of_int \<lfloor>log 2 x\<rfloor>" by simp
  ultimately show ?thesis by linarith
qed

lemma flp_mono:
  assumes "0 < x" "x \<le> y"
  shows "flp x \<le> flp y"
proof -
  have y: "0 < y" using assms by simp
  have le: "\<lfloor>log 2 x\<rfloor> \<le> \<lfloor>log 2 y\<rfloor>"
    using assms y by (intro floor_mono) simp
  show ?thesis
  proof (cases "\<lfloor>log 2 x\<rfloor> = \<lfloor>log 2 y\<rfloor>")
    case True
    define q where "q = (2::real) powr (of_int \<lfloor>log 2 y\<rfloor> - 52)"
    have q: "0 < q" unfolding q_def by simp
    have "x / q \<le> y / q" using assms(2) q by (simp add: divide_right_mono)
    then have "round_even (x / q) \<le> round_even (y / q)" by (rule round_even_mono)
    then have "(of_int (round_even (x / q)) :: real) \<le> of_int (round_even (y / q))"
      by (simp only: of_int_le_iff)
    then have "q * of_int (round_even (x / q)) \<le> q * of_int (round_even (y / q))"
      using q by (intro mult_left_mono) simp_all
    then show ?thesis by (simp add: flp_def Let_def True q_def)
  next
    case False
    then have "\<lfloor>log 2 x\<rfloor> + 1 \<le> \<lfloor>log 2 y\<rfloor>" using le by linarith
    then have "(of_int \<lfloor>log 2 x\<rfloor> :: real) + 1 \<le> of_int \<lfloor>log 2 y\<rfloor>"
      by (metis of_int_1 of_int_add of_int_le_iff)
    then have "(2::real) powr (of_int \<lfloor>log 2 x\<rfloor> + 1) \<le> 2 powr of_int \<lfloor>log 2 y\<rfloor>"
      by simp
    then show ?thesis
      using flp_range(2) [OF assms(1)] flp_range(1) [OF y] by linarith
  qed
qed

lemma fl_mono: "x \<le> y \<Longrightarrow> fl x \<le> fl y"
proof -
  assume xy: "x \<le> y"
  consider (pos) "0 < x" | (mixed) "x \<le> 0" "0 \<le> y" | (neg) "y < 0" by linarith
  then show ?thesis
  proof cases
    case pos
    then show ?thesis using xy flp_mono [of x y] by (simp add: fl_def)
  next
    case mixed
    have "fl x \<le> 0" using mixed(1) flp_pos [of "- x"] by (auto simp: fl_def)
    moreover have "0 \<le> fl y" using mixed(2) flp_pos [of y] by (auto simp: fl_def)
    ultimately show ?thesis by linarith
  next
    case neg
    then have "flp (- y) \<le> flp (- x)" using xy by (intro flp_mono) simp_all
    then show ?thesis using neg xy by (simp add: fl_def)
  qed
qed

lemma fl_err: "\<bar>fl x - x\<bar> \<le> \<bar>x\<bar> / 2 ^ 53"
proof -
  consider (zero) "x = 0" | (pos) "0 < x" | (neg) "x < 0" by linarith
  then show ?thesis
  proof cases
    case zero
    then show ?thesis by (simp add: fl_def)
  next
    case pos
    then show ?thesis using flp_err [of x] by (simp add: fl_def)
  next
    case neg
    then have "\<bar>flp (- x) - (- x)\<bar> \<le> (- x) / 2 ^ 53" by (intro flp_err) simp
    moreover have "fl x - x = - (flp (- x) - (- x))" using neg by (simp add: fl_def)
    ultimately show ?thesis using neg by simp
  qed
qed


text \<open>Numbers with at most 53 significant bits are not changed.\<close>

lemma flp_exact:
  assumes "0 < k" "k \<le> 2 ^ 53"
  shows "flp (of_int k * 2 powr of_int j) = of_int k * 2 powr of_int j"
proof -
  define x :: real where "x = of_int k * 2 powr of_int j"
  define e where "e = \<lfloor>log 2 x\<rfloor>"
  define q :: real where "q = 2 powr (of_int e - 52)"
  have x: "0 < x" unfolding x_def using assms(1) by simp
  have q: "0 < q" unfolding q_def by simp
  have lo: "2 powr of_int e \<le> x" unfolding e_def using x by (rule exponent_bounds(1))
  have k53: "(of_int k :: real) \<le> 2 powr 53"
  proof -
    have "(of_int k :: real) \<le> of_int (2 ^ 53)" using assms(2) by (simp only: of_int_le_iff)
    then show ?thesis by simp
  qed
  have "\<exists>m. x / q = of_int m"
  proof (cases "e - 52 \<le> j")
    case True
    define n where "n = nat (j - (e - 52))"
    have "(2::real) powr of_int j / 2 powr (of_int e - 52) = 2 powr (of_int j - (of_int e - 52))"
      by (simp add: powr_diff)
    also have "of_int j - (of_int e - 52) = (real n)"
      unfolding n_def using True by simp
    also have "(2::real) powr real n = 2 ^ n" by (simp add: powr_realpow)
    finally have r: "(2::real) powr of_int j / 2 powr (of_int e - 52) = 2 ^ n" .
    have "x / q = of_int k * ((2::real) powr of_int j / 2 powr (of_int e - 52))"
      unfolding x_def q_def by (simp only: times_divide_eq_right)
    then have "x / q = of_int k * 2 ^ n" by (simp only: r)
    then have "x / q = of_int (k * 2 ^ n)" by simp
    then show ?thesis by blast
  next
    case False
    then have "j + 53 \<le> e" by linarith
    then have "(of_int j :: real) + 53 \<le> of_int e"
      by (metis of_int_add of_int_le_iff of_int_numeral)
    then have "(2::real) powr (of_int j + 53) \<le> 2 powr of_int e" by simp
    moreover have "x \<le> 2 powr (of_int j + 53)"
    proof -
      have "x \<le> 2 powr 53 * 2 powr of_int j"
        unfolding x_def using k53 by (intro mult_right_mono) simp_all
      then show ?thesis by (simp add: powr_add mult.commute)
    qed
    ultimately have "x = 2 powr of_int e" using lo by linarith
    then have "x / q = 2 powr (of_int e - (of_int e - 52))"
      unfolding q_def by (simp add: powr_diff)
    then have "x / q = of_int (2 ^ 52)" by simp
    then show ?thesis by blast
  qed
  then obtain m where m: "x / q = of_int m" by blast
  have "flp x = q * of_int (round_even (x / q))"
    by (simp add: flp_def Let_def e_def q_def)
  also have "\<dots> = q * (x / q)" unfolding m by (simp only: round_even_of_int)
  also have "\<dots> = x" using q by simp
  finally show ?thesis unfolding x_def .
qed

lemma fl_exact:
  assumes "\<bar>k\<bar> \<le> 2 ^ 53"
  shows "fl (of_int k * 2 powr of_int j) = of_int k * 2 powr of_int j"
proof -
  consider (zero) "k = 0" | (pos) "0 < k" | (neg) "k < 0" by linarith
  then show ?thesis
  proof cases
    case zero
    then show ?thesis by (simp add: fl_def)
  next
    case pos
    then have "0 < of_int k * (2::real) powr of_int j" by simp
    then show ?thesis using flp_exact [of k j] pos assms by (simp add: fl_def)
  next
    case neg
    then have n: "of_int k * (2::real) powr of_int j < 0"
      by (simp add: mult_neg_pos)
    have "flp (of_int (- k) * 2 powr of_int j) = of_int (- k) * 2 powr of_int j"
      using neg assms by (intro flp_exact) simp_all
    then show ?thesis using n by (simp add: fl_def)
  qed
qed

lemma fl_of_int: "\<bar>k\<bar> \<le> 2 ^ 53 \<Longrightarrow> fl (of_int k) = of_int k"
  using fl_exact [of k 0] by simp

lemma fl_0: "fl 0 = 0"
  by (simp add: fl_def)

lemma fl_1: "fl 1 = 1"
  using fl_of_int [of 1] by simp

lemma fl_numeral: "(numeral n :: int) \<le> 2 ^ 53 \<Longrightarrow> fl (numeral n) = numeral n"
  using fl_of_int [of "numeral n"] by simp

lemma fl_power2: "fl (2 ^ n) = 2 ^ n"
proof -
  have "fl (of_int 1 * 2 powr of_int (int n)) = of_int 1 * 2 powr of_int (int n)"
    by (rule fl_exact) simp
  then show ?thesis by (simp add: powr_realpow)
qed

text \<open>A tie: \<open>2^54 - 1\<close> lies halfway between \<open>2^54 - 2\<close> and \<open>2^54\<close>.\<close>

lemma fl_tie: "fl (2 ^ 54 - 1) = 2 ^ 54"
proof -
  have "flp (2 ^ 54 - 1) =
      2 powr (of_int 53 - 52) * of_int (round_even ((2 ^ 54 - 1) / 2 powr (of_int 53 - 52)))"
    by (rule flp_eq) simp_all
  also have "\<dots> = 2 ^ 54"
    by (simp add: round_even_def Let_def)
  finally show ?thesis by (simp add: fl_def)
qed

lemma fl_ge: "d \<le> x \<Longrightarrow> fl d = d \<Longrightarrow> d \<le> fl x"
  using fl_mono [of d x] by simp

lemma fl_le: "x \<le> d \<Longrightarrow> fl d = d \<Longrightarrow> fl x \<le> d"
  using fl_mono [of x d] by simp

text \<open>The literal \<open>1e-9\<close>: the double nearest to \<open>10^-9\<close> lies just above it.\<close>

lemma fl_slack9: "fl slack9 = 4835703278458517 / 2 ^ 82"
proof -
  have p30: "(2::real) powr (- 30) = 1 / 2 ^ 30"
    by (simp add: powr_minus divide_simps)
  have p29: "(2::real) powr (- 29) = 1 / 2 ^ 29"
    by (simp add: powr_minus divide_simps)
  have p82: "(2::real) powr (- 82) = 1 / 2 ^ 82"
    by (simp add: powr_minus divide_simps)
  have "flp (1 / 1000000000)
      = 2 powr (of_int (- 30) - 52)
        * of_int (round_even ((1 / 1000000000) / 2 powr (of_int (- 30) - 52)))"
    by (rule flp_eq) (simp_all add: p30 p29)
  also have "\<dots> = 4835703278458517 / 2 ^ 82"
    by (simp add: p82 round_even_def Let_def)
  finally show ?thesis by (simp add: fl_def slack9_def)
qed

lemma fl_slack9_pos: "0 < fl slack9"
  unfolding fl_slack9 by simp

lemma fl_slack9_bounds: "slack9 < fl slack9" "fl slack9 < slack9 + 1 / 10 ^ 25"
  unfolding fl_slack9 by (simp_all add: slack9_def)

lemma fl_not_less: "d \<le> x \<Longrightarrow> fl d = d \<Longrightarrow> (fl x < d) = False"
  using fl_ge [of d x] by simp

lemma fl_not_less_slack9:
  "d \<le> r \<Longrightarrow> fl d = d \<Longrightarrow> (fl (r + fl (1 / 1000000000)) < d) = False"
  using fl_not_less [of d "r + fl slack9"] fl_slack9_pos by (simp add: slack9_def)

lemmas fl_eval = fl_0 fl_1 fl_numeral fl_not_less fl_not_less_slack9
section \<open>Sorting and the candidate store\<close>

lemma set_insort_by: "set (insort_by lt x xs) = insert x (set xs)"
  by (induction xs) auto

lemma mset_insort_by: "mset (insort_by lt x xs) = add_mset x (mset xs)"
  by (induction xs) auto

lemma mset_stable_sort_by: "mset (stable_sort_by lt xs) = mset xs"
  by (induction xs) (simp_all add: mset_insort_by)

lemma set_stable_sort_by: "set (stable_sort_by lt xs) = set xs"
  by (induction xs) (simp_all add: set_insort_by)

lemma length_insort_by: "length (insort_by lt x xs) = Suc (length xs)"
  by (induction xs) auto

lemma length_stable_sort_by: "length (stable_sort_by lt xs) = length xs"
  by (induction xs) (simp_all add: length_insort_by)

lemma strict_weakD1: "strict_weak lt \<Longrightarrow> lt a b \<Longrightarrow> \<not> lt b a"
  unfolding strict_weak_def by blast

lemma strict_weakD2: "strict_weak lt \<Longrightarrow> \<not> lt b a \<Longrightarrow> \<not> lt c b \<Longrightarrow> \<not> lt c a"
  unfolding strict_weak_def by blast

lemma sorted_insort_by:
  assumes sw: "strict_weak lt"
  shows "sorted_wrt (\<lambda>a b. \<not> lt b a) xs \<Longrightarrow> sorted_wrt (\<lambda>a b. \<not> lt b a) (insort_by lt x xs)"
proof (induction xs)
  case Nil
  show ?case by simp
next
  case (Cons y ys)
  have tl: "sorted_wrt (\<lambda>a b. \<not> lt b a) ys" and hd: "\<forall>z\<in>set ys. \<not> lt z y"
    using Cons.prems by simp_all
  show ?case
  proof (cases "lt y x")
    case True
    have "\<not> lt x y" using strict_weakD1 [OF sw True] .
    with True hd Cons.IH [OF tl] show ?thesis by (simp add: set_insort_by)
  next
    case False
    have "\<forall>z\<in>set ys. \<not> lt z x"
      using hd False strict_weakD2 [OF sw] by blast
    with False hd tl show ?thesis by simp
  qed
qed

lemma sorted_stable_sort_by:
  assumes sw: "strict_weak lt"
  shows "sorted_wrt (\<lambda>a b. \<not> lt b a) (stable_sort_by lt xs)"
proof (induction xs)
  case Nil
  show ?case by simp
next
  case (Cons x xs)
  then show ?case using sorted_insort_by [OF sw] by simp
qed









lemma strict_weak_score: "strict_weak score_greater"
  unfolding strict_weak_def score_greater_def by auto










section \<open>Support and crush kernel\<close>

lemmas const_defs = kEps_def slack9_def slack6_def kMinSupportRatio_def kMaxStackMultiplier_def
  kMaxPressure_def

lemmas geom_defs = sep_x_def sep_y_def sep_z_def intersects_def inside_truck_def overlap_1d_def
  overlap_area_xz_def point_in_overlap_xz_def max_load_for_def

lemmas kernel_defs = support_ok_and_apply_load_def load_share_def crush_ok_def add_load_def
  base_area_of_def scan_def supports_of_def centroid_test_def coverage_test_def crush_test_def

lemma support_ok_and_apply_load_cases:
  "support_ok_and_apply_load c w ps =
     (if ay c \<le> kEps then (True, ps, [])
      else if centroid_test c ps \<and> coverage_test c ps \<and> crush_test c w ps
      then (True, apply_loads w (base_area_of c) (supports_of c ps) ps,
            map (\<lambda>(idx, area). (idx, load_share w (base_area_of c) area)) (supports_of c ps))
      else (False, ps, []))"
  by (simp add: support_ok_and_apply_load_def base_area_of_def scan_def supports_of_def
      centroid_test_def coverage_test_def crush_test_def Let_def)

lemma crush_test_iff:
  "crush_test c w ps =
     (\<forall>(idx, area)\<in>set (supports_of c ps).
        load_on_top (ps ! idx) + load_share w (base_area_of c) area \<le> max_load (ps ! idx) + slack9)"
  by (auto simp: crush_test_def crush_ok_def list_all_iff not_less)

text \<open>
  Claim C5. For a candidate above the floor, a failed centroid test, a failed coverage
  test or a failed crush check makes the kernel return false with \<open>placed\<close> unchanged and
  nothing pushed to \<open>applied\<close>; whenever the kernel returns false, \<open>placed\<close> is unchanged;
  and the crush check is the comparison of \<open>load_on_top + share\<close> with \<open>max_load + 1e-9\<close> at
  every support.
\<close>

theorem support_transactional:
  "(ay c > kEps \<and> (\<not> centroid_test c ps \<or> \<not> coverage_test c ps \<or> \<not> crush_test c w ps)
      \<longrightarrow> support_ok_and_apply_load c w ps = (False, ps, []))
   \<and> (\<not> fst (support_ok_and_apply_load c w ps)
      \<longrightarrow> snd (support_ok_and_apply_load c w ps) = (ps, [])
          \<and> map load_on_top (fst (snd (support_ok_and_apply_load c w ps))) = map load_on_top ps)
   \<and> crush_test c w ps =
       (\<forall>(idx, area)\<in>set (supports_of c ps).
          load_on_top (ps ! idx) + load_share w (base_area_of c) area
            \<le> max_load (ps ! idx) + slack9)"
proof (intro conjI impI)
  assume "ay c > kEps \<and> (\<not> centroid_test c ps \<or> \<not> coverage_test c ps \<or> \<not> crush_test c w ps)"
  then show "support_ok_and_apply_load c w ps = (False, ps, [])"
    by (auto simp: support_ok_and_apply_load_cases)
next
  assume f: "\<not> fst (support_ok_and_apply_load c w ps)"
  then show "snd (support_ok_and_apply_load c w ps) = (ps, [])"
    by (auto simp: support_ok_and_apply_load_cases split: if_splits)
  then show "map load_on_top (fst (snd (support_ok_and_apply_load c w ps))) = map load_on_top ps"
    by simp
next
  show "crush_test c w ps =
       (\<forall>(idx, area)\<in>set (supports_of c ps).
          load_on_top (ps ! idx) + load_share w (base_area_of c) area
            \<le> max_load (ps ! idx) + slack9)"
    by (rule crush_test_iff)
qed

lemma ex_scan: "scan ex_top [ex_floor] = (1, True, [(0, 1)])"
  by (simp add: scan_def ex_top_def ex_floor_def geom_defs const_defs Let_def)

theorem support_transactional_witness:
  "ay ex_top > kEps \<and> \<not> crush_test ex_top 1000 [ex_floor]
   \<and> support_ok_and_apply_load ex_top 1000 [ex_floor] = (False, [ex_floor], [])
   \<and> \<not> fst (support_ok_and_apply_load ex_top 1000 [ex_floor])
   \<and> map load_on_top (fst (snd (support_ok_and_apply_load ex_top 1000 [ex_floor]))) = [0]"
proof -
  have y: "ay ex_top > kEps" by (simp add: ex_top_def kEps_def)
  have c: "\<not> crush_test ex_top 1000 [ex_floor]"
    by (simp add: crush_test_def crush_ok_def supports_of_def ex_scan base_area_of_def
        load_share_def) (simp add: ex_top_def ex_floor_def const_defs)
  have r: "support_ok_and_apply_load ex_top 1000 [ex_floor] = (False, [ex_floor], [])"
    using support_transactional [of ex_top "[ex_floor]" 1000] y c by blast
  have l: "load_on_top ex_floor = 0" by (simp add: ex_floor_def)
  show ?thesis
    using y c r l support_transactional [of ex_top "[ex_floor]" 1000] by simp
qed

section \<open>Ordered crossover\<close>

declare advance_write.simps [simp del]

lemma advance_write_props:
  "w \<le> n \<Longrightarrow>
     w \<le> advance_write child n w \<and> advance_write child n w \<le> n
     \<and> (\<forall>p. w \<le> p \<and> p < advance_write child n w \<longrightarrow> child ! p \<noteq> SIZE_MAX)
     \<and> (advance_write child n w < n \<longrightarrow> child ! advance_write child n w = SIZE_MAX)"
proof (induction child n w rule: advance_write.induct)
  case (1 child n w)
  show ?case
  proof (cases "w < n \<and> child ! w \<noteq> SIZE_MAX")
    case True
    then have eq: "advance_write child n w = advance_write child n (Suc w)"
      by (subst advance_write.simps) simp
    have IH: "Suc w \<le> advance_write child n (Suc w)
        \<and> advance_write child n (Suc w) \<le> n
        \<and> (\<forall>p. Suc w \<le> p \<and> p < advance_write child n (Suc w) \<longrightarrow> child ! p \<noteq> SIZE_MAX)
        \<and> (advance_write child n (Suc w) < n
             \<longrightarrow> child ! advance_write child n (Suc w) = SIZE_MAX)"
      using "1.IH" [OF True] True by simp
    have "child ! p \<noteq> SIZE_MAX"
      if "w \<le> p" "p < advance_write child n (Suc w)" for p
    proof (cases "p = w")
      case True
      then show ?thesis using \<open>w < n \<and> child ! w \<noteq> SIZE_MAX\<close> by simp
    next
      case False
      then have "Suc w \<le> p" using that(1) by simp
      then show ?thesis using IH that(2) by blast
    qed
    then show ?thesis unfolding eq using IH by auto
  next
    case False
    then have eq: "advance_write child n w = w"
      by (subst advance_write.simps) auto
    show ?thesis unfolding eq using False "1.prems" by auto
  qed
qed

lemma copy_fold:
  "fold (\<lambda>k (child, used). (child[k := a ! k], insert (a ! k) used)) ks (child, used) = (c', u')
   \<Longrightarrow> length c' = length child
       \<and> u' = used \<union> (\<lambda>k. a ! k) ` set ks
       \<and> (\<forall>p<length child. c' ! p = (if p \<in> set ks then a ! p else child ! p))"
proof (induction ks arbitrary: child used)
  case Nil
  then show ?case by simp
next
  case (Cons k ks)
  from Cons.prems have
    "fold (\<lambda>k (child, used). (child[k := a ! k], insert (a ! k) used)) ks
       (child[k := a ! k], insert (a ! k) used) = (c', u')"
    by simp
  from Cons.IH [OF this] show ?case
    by (auto simp: nth_list_update)
qed

lemma copy_slice_eq:
  assumes "i \<le> j" "j < n" "length a = n"
  shows "copy_slice a i j (replicate n SIZE_MAX) =
           (replicate i SIZE_MAX @ take (Suc j - i) (drop i a) @ replicate (n - Suc j) SIZE_MAX,
            set (take (Suc j - i) (drop i a)))"
proof -
  obtain c' u' where r: "copy_slice a i j (replicate n SIZE_MAX) = (c', u')"
    by (cases "copy_slice a i j (replicate n SIZE_MAX)")
  then have f: "fold (\<lambda>k (child, used). (child[k := a ! k], insert (a ! k) used)) [i..<Suc j]
       (replicate n SIZE_MAX, {}) = (c', u')"
    by (simp add: copy_slice_def)
  from copy_fold [OF f] have
    len: "length c' = n" and
    u: "u' = (\<lambda>k. a ! k) ` {i..<Suc j}" and
    nth: "\<forall>p<n. c' ! p = (if i \<le> p \<and> p < Suc j then a ! p else SIZE_MAX)"
    by auto
  have "c' = replicate i SIZE_MAX @ take (Suc j - i) (drop i a) @ replicate (n - Suc j) SIZE_MAX"
  proof (rule nth_equalityI)
    show "length c' =
      length (replicate i SIZE_MAX @ take (Suc j - i) (drop i a) @ replicate (n - Suc j) SIZE_MAX)"
      using assms len by simp
  next
    fix p assume "p < length c'"
    then have p: "p < n" using len by simp
    show "c' ! p =
      (replicate i SIZE_MAX @ take (Suc j - i) (drop i a) @ replicate (n - Suc j) SIZE_MAX) ! p"
      using nth p assms by (auto simp: nth_append)
  qed
  moreover have "u' = set (take (Suc j - i) (drop i a))"
  proof -
    have "take (Suc j - i) (drop i a) = map (\<lambda>k. a ! k) [i..<Suc j]"
      using assms by (intro nth_equalityI) (simp_all del: upt_Suc)
    then have "set (take (Suc j - i) (drop i a)) = (\<lambda>k. a ! k) ` set [i..<Suc j]"
      by (simp only: set_map)
    then show ?thesis using u by (simp del: upt_Suc)
  qed
  ultimately show ?thesis using r by simp
qed


lemma filter_mset_neq_diff:
  "filter_mset (\<lambda>v. v \<noteq> m) (A - {#m#}) = filter_mset (\<lambda>v. v \<noteq> m) A"
  by (rule multiset_eqI) simp

lemma count_zero_filter_neq:
  "count A m = 0 \<Longrightarrow> filter_mset (\<lambda>v. v \<noteq> m) A = A"
  by (rule multiset_eqI) auto

lemma fill_fold:
  assumes "length child = n" "w \<le> n"
    and "\<forall>p<w. child ! p \<noteq> SIZE_MAX"
    and "count (mset child) SIZE_MAX = length (filter (\<lambda>g. g \<notin> used) rs)"
    and "\<forall>g\<in>set rs. g \<noteq> SIZE_MAX"
    and "fold (\<lambda>g st. fill_gene n used st g) rs (child, w) = (c', w')"
  shows "length c' = n \<and> SIZE_MAX \<notin> set c'
     \<and> mset c' = filter_mset (\<lambda>v. v \<noteq> SIZE_MAX) (mset child) + mset (filter (\<lambda>g. g \<notin> used) rs)
     \<and> (\<forall>p<n. child ! p \<noteq> SIZE_MAX \<longrightarrow> c' ! p = child ! p)"
  using assms
proof (induction rs arbitrary: child w)
  case Nil
  then have "count (mset child) SIZE_MAX = 0" and "c' = child" by simp_all
  then show ?case using Nil.prems(1) by (simp add: count_zero_filter_neq count_eq_zero_iff)
next
  case (Cons g rs)
  show ?case
  proof (cases "g \<in> used")
    case True
    then have "fold (\<lambda>g st. fill_gene n used st g) rs (child, w) = (c', w')"
      using Cons.prems(6) by (simp add: fill_gene_def)
    moreover have "count (mset child) SIZE_MAX = length (filter (\<lambda>g. g \<notin> used) rs)"
      using Cons.prems(4) True by simp
    ultimately show ?thesis
      using Cons.IH [of child w] Cons.prems(1,2,3,5) True by simp
  next
    case False
    define w1 where "w1 = advance_write child n w"
    have adv: "w \<le> w1" "w1 \<le> n" "\<forall>p. w \<le> p \<and> p < w1 \<longrightarrow> child ! p \<noteq> SIZE_MAX"
      "w1 < n \<longrightarrow> child ! w1 = SIZE_MAX"
      using advance_write_props [OF Cons.prems(2), of child] unfolding w1_def by auto
    have pos: "count (mset child) SIZE_MAX > 0"
      using Cons.prems(4) False by simp
    have lt: "w1 < n"
    proof (rule ccontr)
      assume "\<not> w1 < n"
      then have "w1 = n" using adv(2) by simp
      then have "\<forall>p<n. child ! p \<noteq> SIZE_MAX"
        using adv(3) Cons.prems(3) by (metis not_le)
      then have "SIZE_MAX \<notin> set child"
        using Cons.prems(1) by (auto simp: in_set_conv_nth)
      then show False using pos by (simp add: count_eq_zero_iff)
    qed
    then have hole: "child ! w1 = SIZE_MAX" using adv(4) by simp
    define child2 where "child2 = child[w1 := g]"
    have gM: "g \<noteq> SIZE_MAX" using Cons.prems(5) by simp
    have step: "fold (\<lambda>g st. fill_gene n used st g) rs (child2, w1) = (c', w')"
      using Cons.prems(6) False lt by (simp add: fill_gene_def w1_def child2_def Let_def)
    have ms: "mset child2 = add_mset g (mset child - {#SIZE_MAX#})"
      unfolding child2_def using lt Cons.prems(1) hole by (simp add: mset_update)
    have len2: "length child2 = n" unfolding child2_def using Cons.prems(1) by simp
    have low2: "\<forall>p<w1. child2 ! p \<noteq> SIZE_MAX"
    proof (intro allI impI)
      fix p assume p: "p < w1"
      then have "child2 ! p = child ! p" unfolding child2_def by simp
      moreover have "child ! p \<noteq> SIZE_MAX"
      proof (cases "p < w")
        case True
        then show ?thesis using Cons.prems(3) by simp
      next
        case False
        then show ?thesis using adv(3) p by simp
      qed
      ultimately show "child2 ! p \<noteq> SIZE_MAX" by simp
    qed
    have cnt2: "count (mset child2) SIZE_MAX = length (filter (\<lambda>g. g \<notin> used) rs)"
      using ms gM Cons.prems(4) False by simp
    have rest: "\<forall>g\<in>set rs. g \<noteq> SIZE_MAX" using Cons.prems(5) by simp
    from Cons.IH [OF len2 adv(2) low2 cnt2 rest step]
    have IH: "length c' = n" "SIZE_MAX \<notin> set c'"
      "mset c' = filter_mset (\<lambda>v. v \<noteq> SIZE_MAX) (mset child2) + mset (filter (\<lambda>g. g \<notin> used) rs)"
      "\<forall>p<n. child2 ! p \<noteq> SIZE_MAX \<longrightarrow> c' ! p = child2 ! p"
      by auto
    have f2: "filter_mset (\<lambda>v. v \<noteq> SIZE_MAX) (mset child2)
        = add_mset g (filter_mset (\<lambda>v. v \<noteq> SIZE_MAX) (mset child))"
      unfolding ms using gM by (simp add: filter_mset_neq_diff)
    have keep: "\<forall>p<n. child ! p \<noteq> SIZE_MAX \<longrightarrow> c' ! p = child ! p"
    proof (intro allI impI)
      fix p assume p: "p < n" "child ! p \<noteq> SIZE_MAX"
      then have "p \<noteq> w1" using hole by auto
      then have "child2 ! p = child ! p" unfolding child2_def by simp
      then show "c' ! p = child ! p" using IH(4) p by simp
    qed
    show ?thesis using IH(1,2) IH(3) f2 keep False by simp
  qed
qed


lemma perm_upt_facts:
  assumes "mset a = mset [0..<n]"
  shows "length a = n" "distinct a" "set a = {0..<n}"
proof -
  show "length a = n" using assms by (metis length_upt mset_eq_length minus_nat.diff_0)
  show "distinct a" using assms by (metis distinct_upt mset_eq_imp_distinct_iff)
  show "set a = {0..<n}" using assms by (metis mset_eq_setD set_upt)
qed

lemma crossover_at_sorted_cuts:
  assumes nM: "n \<le> SIZE_MAX" and pa: "mset a = mset [0..<n]" and pb: "mset b = mset [0..<n]"
    and ij: "i \<le> j" and jn: "j < n"
  shows "mset (crossover_at n a b i j) = mset [0..<n]
     \<and> (\<forall>k. i \<le> k \<and> k \<le> j \<longrightarrow> crossover_at n a b i j ! k = a ! k)"
proof -
  note fa = perm_upt_facts [OF pa] and fb = perm_upt_facts [OF pb]
  define slice where "slice = take (Suc j - i) (drop i a)"
  define child1 where
    "child1 = replicate i SIZE_MAX @ slice @ replicate (n - Suc j) SIZE_MAX"
  have len_slice: "length slice = Suc j - i"
    unfolding slice_def using fa(1) jn by simp
  have dist_slice: "distinct slice"
    unfolding slice_def using fa(2) by simp
  have sub_slice: "set slice \<subseteq> {0..<n}"
    unfolding slice_def using fa(3) set_take_subset set_drop_subset by fast
  have slice_M: "SIZE_MAX \<notin> set slice" using sub_slice nM by auto
  have cs: "copy_slice a i j (replicate n SIZE_MAX) = (child1, set slice)"
    unfolding child1_def slice_def by (rule copy_slice_eq [OF ij jn fa(1)])
  have foldb: "fold (\<lambda>k st. fill_gene n (set slice) st (b ! k)) [0..<n] (child1, 0)
      = fold (\<lambda>g st. fill_gene n (set slice) st g) b (child1, 0)"
  proof -
    have mb: "map (\<lambda>k. b ! k) [0..<n] = b" using fb(1) map_nth [of b] by simp
    have "fold (\<lambda>g st. fill_gene n (set slice) st g) (map (\<lambda>k. b ! k) [0..<n]) (child1, 0)
        = fold (\<lambda>k st. fill_gene n (set slice) st (b ! k)) [0..<n] (child1, 0)"
      by (simp add: fold_map comp_def)
    then show ?thesis unfolding mb by simp
  qed
  obtain c' w' where r: "fold (\<lambda>g st. fill_gene n (set slice) st g) b (child1, 0) = (c', w')"
    by (cases "fold (\<lambda>g st. fill_gene n (set slice) st g) b (child1, 0)")
  have res: "crossover_at n a b i j = c'"
    unfolding crossover_at_def using ij cs foldb r by (simp add: Let_def)
  have len1: "length child1 = n"
    unfolding child1_def using len_slice ij jn by simp
  have in_b: "mset (filter (\<lambda>g. g \<in> set slice) b) = mset slice"
  proof -
    have "set (filter (\<lambda>g. g \<in> set slice) b) = set slice"
      using sub_slice fb(3) by auto
    moreover have "distinct (filter (\<lambda>g. g \<in> set slice) b)" using fb(2) by simp
    ultimately show ?thesis using dist_slice set_eq_iff_mset_eq_distinct by blast
  qed
  have "length (filter (\<lambda>g. g \<in> set slice) b) = length slice"
    using in_b by (metis size_mset)
  moreover have "length (filter (\<lambda>g. g \<in> set slice) b)
      + length (filter (\<lambda>g. \<not> g \<in> set slice) b) = length b"
    by (rule sum_length_filter_compl)
  ultimately have out_b: "length (filter (\<lambda>g. g \<notin> set slice) b) = n - (Suc j - i)"
    using fb(1) len_slice by simp
  have cz: "count (mset slice) SIZE_MAX = 0"
    using slice_M by (simp add: count_eq_zero_iff)
  have "count (mset child1) SIZE_MAX = i + count (mset slice) SIZE_MAX + (n - Suc j)"
    unfolding child1_def by simp
  then have "count (mset child1) SIZE_MAX = i + (n - Suc j)"
    by (simp only: cz add_0_right)
  then have cnt: "count (mset child1) SIZE_MAX = length (filter (\<lambda>g. g \<notin> set slice) b)"
    unfolding out_b using ij jn by linarith
  have bM: "\<forall>g\<in>set b. g \<noteq> SIZE_MAX" using fb(3) nM by auto
  have "length c' = n \<and> SIZE_MAX \<notin> set c'
     \<and> mset c' = filter_mset (\<lambda>v. v \<noteq> SIZE_MAX) (mset child1)
          + mset (filter (\<lambda>g. g \<notin> set slice) b)
     \<and> (\<forall>p<n. child1 ! p \<noteq> SIZE_MAX \<longrightarrow> c' ! p = child1 ! p)"
    by (rule fill_fold [OF len1 _ _ cnt bM r]) simp_all
  then have m: "mset c' = filter_mset (\<lambda>v. v \<noteq> SIZE_MAX) (mset child1)
          + mset (filter (\<lambda>g. g \<notin> set slice) b)"
    and keep: "\<forall>p<n. child1 ! p \<noteq> SIZE_MAX \<longrightarrow> c' ! p = child1 ! p"
    by simp_all
  have "filter_mset (\<lambda>v. v \<noteq> SIZE_MAX) (mset slice) = mset slice"
    using slice_M by (simp add: count_zero_filter_neq count_eq_zero_iff)
  then have f1: "filter_mset (\<lambda>v. v \<noteq> SIZE_MAX) (mset child1) = mset slice"
    unfolding child1_def by simp
  have "mset c' = mset (filter (\<lambda>g. g \<in> set slice) b) + mset (filter (\<lambda>g. g \<notin> set slice) b)"
    using m f1 in_b by simp
  also have "\<dots> = mset b" by simp
  finally have perm: "mset c' = mset [0..<n]" using pb by simp
  have pos: "c' ! k = a ! k" if "i \<le> k" "k \<le> j" for k
  proof -
    have "k - i < Suc j - i" using that by linarith
    then have "child1 ! k = slice ! (k - i)"
      unfolding child1_def using that len_slice by (simp add: nth_append)
    also have "\<dots> = a ! k"
      unfolding slice_def using that fa(1) jn by simp
    finally have e: "child1 ! k = a ! k" .
    have "a ! k \<in> set a" using that fa(1) jn by simp
    then have "a ! k \<noteq> SIZE_MAX" using fa(3) nM by auto
    then show ?thesis using keep e that jn by simp
  qed
  show ?thesis unfolding res using perm pos by simp
qed

lemma crossover_at_swap:
  "crossover_at n a b i j = crossover_at n a b (min i j) (max i j)"
  unfolding crossover_at_def by (cases "i \<le> j") (simp_all add: Let_def min_def max_def)

lemma crossover_at_perm:
  assumes "n \<le> SIZE_MAX" "mset a = mset [0..<n]" "mset b = mset [0..<n]" "i < n" "j < n"
  shows "mset (crossover_at n a b i j) = mset [0..<n]"
proof -
  have "min i j \<le> max i j" "max i j < n" using assms(4,5) by simp_all
  from crossover_at_sorted_cuts [OF assms(1,2,3) this] show ?thesis
    by (subst crossover_at_swap) simp
qed

text \<open>
  Claim C10. For \<open>n \<ge> 1\<close> (a \<open>size_t\<close>, hence at most \<open>SIZE_MAX\<close>), parents whose orders
  are permutations of \<open>0, \<dots>, n - 1\<close> and cut indices \<open>i \<le> j < n\<close>, the child of the ordered
  crossover is a permutation of \<open>0, \<dots>, n - 1\<close>: it has length \<open>n\<close>, no position keeps the
  empty mark, no gene occurs twice, positions \<open>i..j\<close> hold the genes of parent \<open>a\<close> at those
  positions, and every other position holds a gene of parent \<open>b\<close> that is not in the
  copied slice.
\<close>

theorem crossover_permutation:
  assumes "1 \<le> n" "n \<le> SIZE_MAX" "mset a = mset [0..<n]" "mset b = mset [0..<n]"
    and "i \<le> j" "j < n"
  shows "mset (crossover_at n a b i j) = mset [0..<n]
     \<and> length (crossover_at n a b i j) = n
     \<and> distinct (crossover_at n a b i j)
     \<and> SIZE_MAX \<notin> set (crossover_at n a b i j)
     \<and> (\<forall>k. i \<le> k \<and> k \<le> j \<longrightarrow> crossover_at n a b i j ! k = a ! k)
     \<and> (\<forall>k<n. \<not> (i \<le> k \<and> k \<le> j) \<longrightarrow>
           crossover_at n a b i j ! k \<in> set b
           \<and> crossover_at n a b i j ! k \<notin> (\<lambda>k. a ! k) ` {i..j})"
proof -
  define c where "c = crossover_at n a b i j"
  have perm: "mset c = mset [0..<n]" and pos: "\<forall>k. i \<le> k \<and> k \<le> j \<longrightarrow> c ! k = a ! k"
    unfolding c_def using crossover_at_sorted_cuts [OF assms(2,3,4,5,6)] by simp_all
  note fc = perm_upt_facts [OF perm] and fb = perm_upt_facts [OF assms(4)]
  have noM: "SIZE_MAX \<notin> set c" using fc(3) assms(2) by auto
  have out: "c ! k \<in> set b \<and> c ! k \<notin> (\<lambda>k. a ! k) ` {i..j}"
    if "k < n" "\<not> (i \<le> k \<and> k \<le> j)" for k
  proof
    have "c ! k \<in> set c" using that(1) fc(1) by simp
    then show "c ! k \<in> set b" using fc(3) fb(3) by simp
    show "c ! k \<notin> (\<lambda>k. a ! k) ` {i..j}"
    proof
      assume "c ! k \<in> (\<lambda>k. a ! k) ` {i..j}"
      then obtain k' where k': "i \<le> k'" "k' \<le> j" "c ! k = a ! k'" by auto
      then have "c ! k = c ! k'" using pos by simp
      moreover have "k' < length c" using k'(2) assms(6) fc(1) by simp
      ultimately have "k = k'"
        using fc(1,2) that(1) by (simp add: nth_eq_iff_index_eq)
      then show False using that(2) k'(1,2) by simp
    qed
  qed
  show ?thesis
    unfolding c_def [symmetric] using perm fc(1,2) noM pos out by blast
qed

theorem crossover_permutation_witness:
  "(1::nat) \<le> 4 \<and> (4::nat) \<le> SIZE_MAX \<and> mset [2, 0, 3, 1] = mset [0..<4]
   \<and> mset [3, 2, 1, 0] = mset [0..<4] \<and> (1::nat) \<le> 2 \<and> (2::nat) < 4
   \<and> mset (crossover_at 4 [2, 0, 3, 1] [3, 2, 1, 0] 1 2) = mset [0..<4]
   \<and> crossover_at 4 [2, 0, 3, 1] [3, 2, 1, 0] 1 2 ! 1 = 0"
proof -
  have h2: "(4::nat) \<le> SIZE_MAX" by (simp add: SIZE_MAX_def)
  have u: "[0..<4] = [0, 1, 2, 3::nat]" by (simp add: upt_rec)
  have h3: "mset [2, 0, 3, 1] = mset [0..<4]" unfolding u by simp
  have h4: "mset [3, 2, 1, 0] = mset [0..<4]" unfolding u by simp
  have t: "mset (crossover_at 4 [2, 0, 3, 1] [3, 2, 1, 0] 1 2) = mset [0..<4]
     \<and> crossover_at 4 [2, 0, 3, 1] [3, 2, 1, 0] 1 2 ! 1 = [2, 0, 3, 1] ! 1"
    using crossover_permutation [of 4 "[2, 0, 3, 1]" "[3, 2, 1, 0]" 1 2] h2 h3 h4 by simp
  then show ?thesis using h2 h3 h4 by simp
qed

section \<open>Load updates leave everything but the accumulators alone\<close>

lemma unload_update [simp]: "unload (p\<lparr>load_on_top := v\<rparr>) = unload p"
  by (simp add: unload_def)

lemma frame_update:
  "map unload (ps[i := (ps ! i)\<lparr>load_on_top := v\<rparr>]) = map unload ps"
proof (rule nth_equalityI)
  show "length (map unload (ps[i := (ps ! i)\<lparr>load_on_top := v\<rparr>])) = length (map unload ps)"
    by simp
next
  fix k assume "k < length (map unload (ps[i := (ps ! i)\<lparr>load_on_top := v\<rparr>]))"
  then have k: "k < length ps" by simp
  show "map unload (ps[i := (ps ! i)\<lparr>load_on_top := v\<rparr>]) ! k = map unload ps ! k"
  proof (cases "k = i")
    case True
    then show ?thesis using k by simp
  next
    case False
    then show ?thesis using k by simp
  qed
qed

lemma frame_add_load: "map unload (add_load ps idx v) = map unload ps"
  unfolding add_load_def by (rule frame_update)

lemma frame_apply_loads: "map unload (apply_loads w ba sp ps) = map unload ps"
  by (induction w ba sp ps rule: apply_loads.induct) (simp_all add: frame_add_load)

lemma frame_rollback: "map unload (rollback_loads ps applied) = map unload ps"
  by (induction ps applied rule: rollback_loads.induct) (simp_all add: frame_update)

lemma frame_support:
  "map unload (fst (snd (support_ok_and_apply_load c w ps))) = map unload ps"
  by (simp add: support_ok_and_apply_load_cases frame_apply_loads)

lemma frame_field:
  assumes "\<And>p. f (unload p) = f p" "map unload ps' = map unload ps"
  shows "map f ps' = map f ps"
proof -
  have "map f qs = map f (map unload qs)" for qs
    using assms(1) by simp
  then have "map f ps' = map f (map unload ps')" and "map f ps = map f (map unload ps)"
    by blast+
  then show ?thesis by (simp only: assms(2))
qed

lemma frame_boxes: "map unload ps' = map unload ps \<Longrightarrow> map ps_box ps' = map ps_box ps"
  by (rule frame_field) (simp_all add: unload_def)

lemma frame_weights: "map unload ps' = map unload ps \<Longrightarrow> map ps_weight ps' = map ps_weight ps"
  by (rule frame_field) (simp_all add: unload_def)

lemma frame_ids: "map unload ps' = map unload ps \<Longrightarrow> map ps_id ps' = map ps_id ps"
  by (rule frame_field) (simp_all add: unload_def)

lemma collides_any_boxes:
  "collides_any ps a = (\<exists>b\<in>set (map ps_box ps). intersects a b)"
  by (auto simp: collides_any_def list_ex_iff)

lemma collides_any_frame:
  assumes "map unload ps' = map unload ps"
  shows "collides_any ps' a = collides_any ps a"
  unfolding collides_any_boxes by (simp only: frame_boxes [OF assms])

section \<open>The sweep\<close>

lemma frame_try_candidate:
  "map unload (s_placed (try_candidate truck w s c)) = map unload (s_placed s)"
proof -
  obtain ok ps1 applied where r: "support_ok_and_apply_load c w (s_placed s) = (ok, ps1, applied)"
    by (cases "support_ok_and_apply_load c w (s_placed s)")
  have "map unload ps1 = map unload (s_placed s)"
    using frame_support [of c w "s_placed s"] r by simp
  then show ?thesis
    by (simp add: try_candidate_def r frame_rollback)
qed

lemma best_fits_try_candidate:
  assumes "map unload (s_placed s) = map unload ps" "best_fits truck ps s"
  shows "best_fits truck ps (try_candidate truck w s c)"
proof -
  obtain ok ps1 applied where r: "support_ok_and_apply_load c w (s_placed s) = (ok, ps1, applied)"
    by (cases "support_ok_and_apply_load c w (s_placed s)")
  have col: "collides_any (s_placed s) c = collides_any ps c"
    using assms(1) by (rule collides_any_frame)
  show ?thesis
    using assms(2) col by (auto simp: try_candidate_def r best_fits_def)
qed

lemma sweep_rots_inv:
  assumes "map unload (s_placed s) = map unload ps" "best_fits truck ps s"
  shows "map unload (s_placed (sweep_rots truck box s cand)) = map unload ps
     \<and> best_fits truck ps (sweep_rots truck box s cand)"
proof -
  have "map unload (s_placed (foldl (\<lambda>s r. try_candidate truck w s (mk_candidate cand r)) s rs))
          = map unload ps
     \<and> best_fits truck ps (foldl (\<lambda>s r. try_candidate truck w s (mk_candidate cand r)) s rs)"
    for w rs
    using assms
  proof (induction rs arbitrary: s)
    case Nil
    then show ?case by simp
  next
    case (Cons r rs)
    have 1: "map unload (s_placed (try_candidate truck w s (mk_candidate cand r))) = map unload ps"
      using Cons.prems(1) by (simp add: frame_try_candidate)
    have 2: "best_fits truck ps (try_candidate truck w s (mk_candidate cand r))"
      using Cons.prems by (rule best_fits_try_candidate)
    show ?case using Cons.IH [OF 1 2] by simp
  qed
  then show ?thesis unfolding sweep_rots_def by blast
qed

lemma sweep_inv:
  "map unload (s_placed (sweep truck box cands ps)) = map unload ps
   \<and> best_fits truck ps (sweep truck box cands ps)"
proof -
  have "map unload (s_placed (foldl (sweep_rots truck box) s cands)) = map unload ps
     \<and> best_fits truck ps (foldl (sweep_rots truck box) s cands)"
    if "map unload (s_placed s) = map unload ps" "best_fits truck ps s" for s
    using that
  proof (induction cands arbitrary: s)
    case Nil
    then show ?case by simp
  next
    case (Cons c cs)
    from sweep_rots_inv [OF Cons.prems] Cons.IH show ?case by simp
  qed
  then show ?thesis unfolding sweep_def by (simp add: best_fits_def)
qed

section \<open>Loads stay within the budget\<close>

lemma loads_ok_update:
  assumes "loads_ok ps" "idx < length ps \<longrightarrow> v \<le> max_load (ps ! idx) + slack9"
  shows "loads_ok (ps[idx := (ps ! idx)\<lparr>load_on_top := v\<rparr>])"
proof (cases "idx < length ps")
  case True
  have "set (ps[idx := (ps ! idx)\<lparr>load_on_top := v\<rparr>])
      \<subseteq> insert ((ps ! idx)\<lparr>load_on_top := v\<rparr>) (set ps)"
    by (rule set_update_subset_insert)
  then show ?thesis
    using assms True unfolding loads_ok_def list_all_iff by auto
next
  case False
  then have "length ps \<le> idx" by simp
  then have "ps[idx := (ps ! idx)\<lparr>load_on_top := v\<rparr>] = ps"
    by (rule list_update_beyond)
  then show ?thesis using assms(1) by simp
qed

lemma loads_ok_nth: "loads_ok ps \<Longrightarrow> idx < length ps \<Longrightarrow>
    load_on_top (ps ! idx) \<le> max_load (ps ! idx) + slack9"
  unfolding loads_ok_def list_all_iff by simp

lemma loads_ok_rollback:
  "nonneg_loads applied \<Longrightarrow> loads_ok ps \<Longrightarrow> loads_ok (rollback_loads ps applied)"
proof (induction ps applied rule: rollback_loads.induct)
  case (1 ps)
  then show ?case by simp
next
  case (2 ps idx added rest)
  have a: "0 \<le> added" and r: "nonneg_loads rest"
    using "2.prems"(1) by (simp_all add: nonneg_loads_def)
  have "loads_ok (ps[idx := (ps ! idx)\<lparr>load_on_top := load_on_top (ps ! idx) - added\<rparr>])"
  proof (rule loads_ok_update [OF "2.prems"(2)], rule impI)
    assume "idx < length ps"
    then have "load_on_top (ps ! idx) \<le> max_load (ps ! idx) + slack9"
      using "2.prems"(2) by (rule loads_ok_nth [rotated])
    then show "load_on_top (ps ! idx) - added \<le> max_load (ps ! idx) + slack9"
      using a by simp
  qed
  then show ?case using "2.IH" r by simp
qed

lemma scan_supports_indices:
  "(\<forall>(idx, area)\<in>set (snd (snd (scan_supports c x z i ps))). i \<le> idx \<and> idx < i + length ps)
   \<and> distinct (map fst (snd (snd (scan_supports c x z i ps))))"
proof (induction ps arbitrary: i)
  case Nil
  show ?case by simp
next
  case (Cons s ss)
  have IH1: "\<forall>(idx, area)\<in>set (snd (snd (scan_supports c x z (Suc i) ss))).
      Suc i \<le> idx \<and> idx < Suc i + length ss"
    and IH2: "distinct (map fst (snd (snd (scan_supports c x z (Suc i) ss))))"
    using Cons.IH [of "Suc i"] by simp_all
  have notin: "i \<notin> fst ` set (snd (snd (scan_supports c x z (Suc i) ss)))"
    using IH1 by fastforce
  have lift: "\<forall>(idx, area)\<in>set (snd (snd (scan_supports c x z (Suc i) ss))).
      i \<le> idx \<and> idx < i + length (s # ss)"
    using IH1 by fastforce
  show ?case
    using IH2 notin lift by (simp add: Let_def)
qed

lemma supports_of_distinct: "distinct (map fst (supports_of c ps))"
  unfolding supports_of_def scan_def using scan_supports_indices by blast

lemma add_load_nth_other:
  "idx' \<noteq> idx \<Longrightarrow> add_load ps idx v ! idx' = ps ! idx'"
  by (simp add: add_load_def)

lemma loads_ok_apply_loads:
  assumes "distinct (map fst sp)" "crush_ok w ba ps sp" "loads_ok ps"
  shows "loads_ok (apply_loads w ba sp ps)"
  using assms
proof (induction w ba sp ps rule: apply_loads.induct)
  case (1 w ba ps)
  then show ?case by simp
next
  case (2 w ba idx area rest ps)
  have hd: "load_on_top (ps ! idx) + load_share w ba area \<le> max_load (ps ! idx) + slack9"
    using "2.prems"(2) by (simp add: crush_ok_def not_less)
  have tl: "crush_ok w ba ps rest"
    using "2.prems"(2) by (simp add: crush_ok_def)
  have d: "distinct (map fst rest)" and ni: "idx \<notin> fst ` set rest"
    using "2.prems"(1) by simp_all
  have ok1: "loads_ok (add_load ps idx (load_share w ba area))"
    unfolding add_load_def
    by (rule loads_ok_update [OF "2.prems"(3)]) (use hd in simp)
  have "crush_ok w ba (add_load ps idx (load_share w ba area)) rest"
    unfolding crush_ok_def list_all_iff
  proof
    fix e assume e: "e \<in> set rest"
    obtain idx' area' where ee: "e = (idx', area')" by (cases e)
    have "idx' \<noteq> idx" using e ee ni by force
    then have "add_load ps idx (load_share w ba area) ! idx' = ps ! idx'"
      by (rule add_load_nth_other)
    moreover have "\<not> (load_on_top (ps ! idx') + load_share w ba area'
             > max_load (ps ! idx') + slack9)"
      using tl e ee unfolding crush_ok_def list_all_iff by auto
    ultimately show "case e of (i', a') \<Rightarrow>
        \<not> (load_on_top (add_load ps idx (load_share w ba area) ! i') + load_share w ba a'
             > max_load (add_load ps idx (load_share w ba area) ! i') + slack9)"
      using ee by simp
  qed
  from "2.IH" [OF d this ok1] show ?case by simp
qed

lemma load_share_nonneg: "0 \<le> w \<Longrightarrow> 0 \<le> load_share w ba area"
  by (simp add: load_share_def)

lemma support_loads_ok:
  assumes "0 \<le> w" "loads_ok ps"
  shows "loads_ok (fst (snd (support_ok_and_apply_load c w ps)))
     \<and> nonneg_loads (snd (snd (support_ok_and_apply_load c w ps)))"
proof -
  have "loads_ok (apply_loads w (base_area_of c) (supports_of c ps) ps)"
    if "crush_test c w ps"
    using that assms(2) supports_of_distinct
    by (auto simp: crush_test_def intro: loads_ok_apply_loads)
  moreover have "nonneg_loads
      (map (\<lambda>(idx, area). (idx, load_share w (base_area_of c) area)) (supports_of c ps))"
    using load_share_nonneg [OF assms(1)]
    by (auto simp: nonneg_loads_def list_all_iff)
  ultimately show ?thesis
    using assms(2) by (simp add: support_ok_and_apply_load_cases nonneg_loads_def)
qed

lemma loads_try_candidate:
  assumes "0 \<le> w" "sweep_loads_ok s"
  shows "sweep_loads_ok (try_candidate truck w s c)"
proof -
  obtain ok ps1 applied where r: "support_ok_and_apply_load c w (s_placed s) = (ok, ps1, applied)"
    by (cases "support_ok_and_apply_load c w (s_placed s)")
  have s: "loads_ok (s_placed s)" "nonneg_loads (best_loads s)"
    using assms(2) by (simp_all add: sweep_loads_ok_def)
  have 1: "loads_ok ps1" "nonneg_loads applied"
    using support_loads_ok [OF assms(1) s(1), of c] r by simp_all
  have 2: "loads_ok (rollback_loads ps1 applied)"
    using 1 by (simp add: loads_ok_rollback)
  have 3: "loads_ok (rollback_loads ps1 (best_loads s))"
    using 1(1) s(2) by (simp add: loads_ok_rollback)
  show ?thesis
    using s 1 2 3 by (simp add: try_candidate_def r sweep_loads_ok_def)
qed

lemma loads_sweep_rots:
  assumes "0 \<le> box_weight box" "sweep_loads_ok s"
  shows "sweep_loads_ok (sweep_rots truck box s cand)"
proof -
  have "sweep_loads_ok
      (foldl (\<lambda>s r. try_candidate truck (box_weight box) s (mk_candidate cand r)) s rs)" for rs
    using assms(2)
  proof (induction rs arbitrary: s)
    case Nil
    then show ?case by simp
  next
    case (Cons r rs)
    from loads_try_candidate [OF assms(1) Cons.prems] Cons.IH show ?case by simp
  qed
  then show ?thesis unfolding sweep_rots_def .
qed

lemma loads_sweep:
  assumes "0 \<le> box_weight box" "loads_ok ps"
  shows "loads_ok (s_placed (sweep truck box cands ps))"
proof -
  have "sweep_loads_ok (foldl (sweep_rots truck box) s cands)" if "sweep_loads_ok s" for s
    using that
  proof (induction cands arbitrary: s)
    case Nil
    then show ?case by simp
  next
    case (Cons c cs)
    from loads_sweep_rots [OF assms(1) Cons.prems] Cons.IH show ?case by simp
  qed
  then have "sweep_loads_ok (sweep truck box cands ps)"
    unfolding sweep_def using assms(2) by (simp add: sweep_loads_ok_def nonneg_loads_def)
  then show ?thesis by (simp add: sweep_loads_ok_def)
qed

section \<open>Invariants of the loop over the order\<close>

lemma intersects_sym: "intersects a b = intersects b a"
  by (auto simp: intersects_def sep_x_def sep_y_def sep_z_def)

lemma budget_ok_frame:
  assumes "map unload ps' = map unload ps"
  shows "list_all budget_ok ps' = list_all budget_ok ps"
proof -
  have u: "budget_ok (unload p) = budget_ok p" for p
    by (simp add: budget_ok_def unload_def)
  have "list_all budget_ok qs = list_all budget_ok (map unload qs)" for qs
    by (simp add: list_all_iff u)
  then have "list_all budget_ok ps' = list_all budget_ok (map unload ps')"
    and "list_all budget_ok ps = list_all budget_ok (map unload ps)"
    by blast+
  then show ?thesis by (simp only: assms)
qed

lemma pack_inv_frame:
  assumes "pack_inv truck st" "map unload ps' = map unload (st_placed st)" "loads_ok ps'"
  shows "pack_inv truck (st\<lparr>st_placed := ps'\<rparr>)"
  using assms(1,3)
  unfolding pack_inv_def
  by (simp add: frame_boxes [OF assms(2)] frame_ids [OF assms(2)]
      budget_ok_frame [OF assms(2)])

lemma pack_inv_unplaced: "pack_inv truck (record_unplaced box st) = pack_inv truck st"
  by (simp add: pack_inv_def record_unplaced_def)

lemma placement_box_new:
  "placement_box \<lparr>pl_id = i, pl_x = ax b, pl_y = ay b, pl_z = az b,
      pl_w = aw b, pl_h = ah b, pl_d = ad b\<rparr> = b"
  by (simp add: placement_box_def)

lemma max_load_for_pos: "0 < max_load_for w a"
  by (simp add: max_load_for_def kEps_def Let_def max_def)

lemma pack_inv_accept:
  assumes inv: "pack_inv truck st"
    and frame: "map unload (s_placed s) = map unload (st_placed st)"
    and loads: "loads_ok (s_placed s)"
    and fits: "inside_truck truck (best s)" "\<not> collides_any (st_placed st) (best s)"
  shows "pack_inv truck (accept_best box cands s st)"
proof -
  note fb = frame_boxes [OF frame] and fi = frame_ids [OF frame]
  have apart: "\<forall>a\<in>set (map ps_box (st_placed st)). \<not> intersects a (best s)"
    using fits(2) by (auto simp: collides_any_boxes intersects_sym [of _ "best s"])
  have new_ok: "0 \<le> max_load_for (box_weight box) (aw (best s) * ad (best s)) + slack9"
    using max_load_for_pos [of "box_weight box" "aw (best s) * ad (best s)"]
    by (simp add: slack9_def)
  have 1: "sorted_wrt (\<lambda>a b. \<not> intersects a b) (map ps_box (st_placed st) @ [best s])"
    using inv apart by (simp add: pack_inv_def sorted_wrt_append)
  have 2: "list_all (inside_truck truck) (map ps_box (st_placed st) @ [best s])"
    using inv fits(1) by (simp add: pack_inv_def)
  have 8: "loads_ok (s_placed s @
      [\<lparr>ps_box = best s, ps_id = box_id box, ps_weight = box_weight box,
        max_load = max_load_for (box_weight box) (aw (best s) * ad (best s)),
        load_on_top = 0\<rparr>])"
    using loads new_ok by (simp add: loads_ok_def)
  have 9: "list_all budget_ok (s_placed s @
      [\<lparr>ps_box = best s, ps_id = box_id box, ps_weight = box_weight box,
        max_load = max_load_for (box_weight box) (aw (best s) * ad (best s)),
        load_on_top = 0\<rparr>])"
    using inv budget_ok_frame [OF frame] by (simp add: pack_inv_def budget_ok_def)
  show ?thesis
    unfolding pack_inv_def accept_best_def Let_def
    using inv 1 2 8 9
    by (simp add: pack_inv_def fb fi placement_box_new)
qed

lemma pack_inv_step:
  assumes "pack_inv truck st" "0 \<le> box_weight (boxes ! idx)"
  shows "pack_inv truck (pack_step truck boxes st idx)"
proof (cases "box_weight (boxes ! idx) > fl (st_remaining_weight st + fl slack9)")
  case True
  then show ?thesis using assms(1) by (simp add: pack_step_def pack_inv_unplaced)
next
  case False
  define cands where "cands = unique_candidates (st_candidates st)"
  define s where "s = sweep truck (boxes ! idx) cands (st_placed st)"
  have frame: "map unload (s_placed s) = map unload (st_placed st)"
    and bf: "best_fits truck (st_placed st) s"
    unfolding s_def using sweep_inv by blast+
  have loads: "loads_ok (s_placed s)"
    unfolding s_def using assms by (intro loads_sweep) (simp_all add: pack_inv_def)
  show ?thesis
  proof (cases "found s")
    case True
    then have "inside_truck truck (best s)" "\<not> collides_any (st_placed st) (best s)"
      using bf by (simp_all add: best_fits_def)
    from pack_inv_accept [OF assms(1) frame loads this]
    show ?thesis using True False by (simp add: pack_step_def Let_def cands_def s_def)
  next
    case nf: False
    have "pack_inv truck (st\<lparr>st_placed := s_placed s, st_candidates := cands\<rparr>)"
      using pack_inv_frame [OF assms(1) frame loads] by (simp add: pack_inv_def)
    then show ?thesis
      using nf False by (simp add: pack_step_def Let_def cands_def s_def pack_inv_unplaced)
  qed
qed

lemma pack_inv_init: "pack_inv truck (init_state truck boxes)"
  by (simp add: pack_inv_def init_state_def loads_ok_def)

lemma pack_inv_foldl:
  assumes "pack_inv truck st" "\<forall>idx\<in>set ord. 0 \<le> box_weight (boxes ! idx)"
  shows "pack_inv truck (foldl (pack_step truck boxes) st ord)"
  using assms
proof (induction ord arbitrary: st)
  case Nil
  then show ?case by simp
next
  case (Cons idx ord)
  have "pack_inv truck (pack_step truck boxes st idx)"
    using Cons.prems by (intro pack_inv_step) simp_all
  then show ?case using Cons.IH Cons.prems(2) by simp
qed

lemma valid_input_weights:
  assumes "valid_input truck boxes ord"
  shows "\<forall>idx\<in>set ord. 0 \<le> box_weight (boxes ! idx)"
proof
  fix idx assume "idx \<in> set ord"
  moreover have "set ord = {0..<length boxes}"
    using assms perm_upt_facts(3) by (simp add: valid_input_def)
  ultimately have "idx < length boxes" by simp
  then have "valid_box (boxes ! idx)"
    using assms by (simp add: valid_input_def list_all_length)
  then show "0 \<le> box_weight (boxes ! idx)" by (simp add: valid_box_def)
qed

lemma pack_inv_loop:
  assumes "valid_input truck boxes ord"
  shows "pack_inv truck (pack_loop truck boxes ord)"
  unfolding pack_loop_def
  using assms valid_input_weights [OF assms]
  by (intro pack_inv_foldl pack_inv_init)

lemma placed_pack_by_order:
  "placed (pack_by_order truck boxes ord) = placed (st_result (pack_loop truck boxes ord))"
  by (simp add: pack_by_order_def Let_def)

lemma total_weight_pack_by_order:
  "total_weight (pack_by_order truck boxes ord)
     = total_weight (st_result (pack_loop truck boxes ord))"
  by (simp add: pack_by_order_def Let_def)

lemma unplaced_pack_by_order:
  "unplaced (pack_by_order truck boxes ord) = unplaced (st_result (pack_loop truck boxes ord))"
  by (simp add: pack_by_order_def Let_def)

section \<open>Placed and unplaced boxes partition the order\<close>

lemma part_inv_step:
  assumes "part_inv boxes pre st"
  shows "part_inv boxes (pre @ [idx]) (pack_step truck boxes st idx)"
proof -
  obtain "is" js where g: "mset is + mset js = mset pre"
    "map ps_id (st_placed st) = map (\<lambda>i. box_id (boxes ! i)) is"
    "map ps_weight (st_placed st) = map (\<lambda>i. box_weight (boxes ! i)) is"
    "unplaced (st_result st) = map (\<lambda>i. box_id (boxes ! i)) js"
    "map pl_id (placed (st_result st)) = map (\<lambda>i. box_id (boxes ! i)) is"
    using assms unfolding part_inv_def by blast
  define cands where "cands = unique_candidates (st_candidates st)"
  define s where "s = sweep truck (boxes ! idx) cands (st_placed st)"
  have frame: "map unload (s_placed s) = map unload (st_placed st)"
    unfolding s_def using sweep_inv by blast
  note fi = frame_ids [OF frame] and fw = frame_weights [OF frame]
  consider (heavy) "box_weight (boxes ! idx) > fl (st_remaining_weight st + fl slack9)"
    | (none) "\<not> box_weight (boxes ! idx) > fl (st_remaining_weight st + fl slack9)" "\<not> found s"
    | (some) "\<not> box_weight (boxes ! idx) > fl (st_remaining_weight st + fl slack9)" "found s"
    by blast
  then show ?thesis
  proof cases
    case heavy
    have "mset is + mset (js @ [idx]) = mset (pre @ [idx])" using g(1) by simp
    moreover have "unplaced (st_result (pack_step truck boxes st idx))
        = map (\<lambda>i. box_id (boxes ! i)) (js @ [idx])"
      using heavy g(4) by (simp add: pack_step_def record_unplaced_def)
    moreover have "st_placed (pack_step truck boxes st idx) = st_placed st"
      "placed (st_result (pack_step truck boxes st idx)) = placed (st_result st)"
      using heavy by (simp_all add: pack_step_def record_unplaced_def)
    ultimately show ?thesis unfolding part_inv_def using g(2,3,5) by metis
  next
    case none
    have "mset is + mset (js @ [idx]) = mset (pre @ [idx])" using g(1) by simp
    moreover have "unplaced (st_result (pack_step truck boxes st idx))
        = map (\<lambda>i. box_id (boxes ! i)) (js @ [idx])"
      using none g(4) by (simp add: pack_step_def record_unplaced_def Let_def cands_def s_def)
    moreover have "st_placed (pack_step truck boxes st idx) = s_placed s"
      "placed (st_result (pack_step truck boxes st idx)) = placed (st_result st)"
      using none by (simp_all add: pack_step_def record_unplaced_def Let_def cands_def s_def)
    ultimately show ?thesis unfolding part_inv_def using g(2,3,5) fi fw by metis
  next
    case some
    have st: "pack_step truck boxes st idx = accept_best (boxes ! idx) cands s st"
      using some by (simp add: pack_step_def Let_def cands_def s_def)
    have "mset (is @ [idx]) + mset js = mset (pre @ [idx])" using g(1) by simp
    moreover have "unplaced (st_result (pack_step truck boxes st idx))
        = map (\<lambda>i. box_id (boxes ! i)) js"
      unfolding st using g(4) by (simp add: accept_best_def Let_def)
    moreover have "map ps_id (st_placed (pack_step truck boxes st idx))
        = map (\<lambda>i. box_id (boxes ! i)) (is @ [idx])"
      unfolding st using g(2) fi by (simp add: accept_best_def Let_def)
    moreover have "map ps_weight (st_placed (pack_step truck boxes st idx))
        = map (\<lambda>i. box_weight (boxes ! i)) (is @ [idx])"
      unfolding st using g(3) fw by (simp add: accept_best_def Let_def)
    moreover have "map pl_id (placed (st_result (pack_step truck boxes st idx)))
        = map (\<lambda>i. box_id (boxes ! i)) (is @ [idx])"
      unfolding st using g(5) by (simp add: accept_best_def Let_def)
    ultimately show ?thesis unfolding part_inv_def by blast
  qed
qed

lemma part_inv_foldl:
  "part_inv boxes pre st \<Longrightarrow> part_inv boxes (pre @ ord) (foldl (pack_step truck boxes) st ord)"
proof (induction ord arbitrary: pre st)
  case Nil
  then show ?case by simp
next
  case (Cons idx ord)
  have "part_inv boxes (pre @ [idx]) (pack_step truck boxes st idx)"
    using Cons.prems by (rule part_inv_step)
  from Cons.IH [OF this] show ?case by simp
qed

lemma part_inv_loop: "part_inv boxes ord (pack_loop truck boxes ord)"
proof -
  have "part_inv boxes [] (init_state truck boxes)"
    by (simp add: part_inv_def init_state_def)
  from part_inv_foldl [OF this, of ord truck] show ?thesis
    by (simp add: pack_loop_def)
qed

lemma pack_partition:
  "mset (map pl_id (placed (pack_by_order truck boxes ord)))
     + mset (unplaced (pack_by_order truck boxes ord))
   = mset (map (\<lambda>i. box_id (boxes ! i)) ord)"
proof -
  obtain "is" js where g: "mset is + mset js = mset ord"
    "map pl_id (placed (st_result (pack_loop truck boxes ord)))
       = map (\<lambda>i. box_id (boxes ! i)) is"
    "unplaced (st_result (pack_loop truck boxes ord)) = map (\<lambda>i. box_id (boxes ! i)) js"
    using part_inv_loop [of boxes ord truck] unfolding part_inv_def by blast
  have "mset (map (\<lambda>i. box_id (boxes ! i)) ord)
      = image_mset (\<lambda>i. box_id (boxes ! i)) (mset is + mset js)"
    using g(1) by simp
  also have "\<dots> = mset (map (\<lambda>i. box_id (boxes ! i)) is) + mset (map (\<lambda>i. box_id (boxes ! i)) js)"
    by simp
  finally show ?thesis
    unfolding placed_pack_by_order unplaced_pack_by_order
    by (simp only: g(2,3))
qed

section \<open>A stack of two boxes\<close>

lemmas pack_defs = pack_step_def sweep_def sweep_rots_def try_candidate_def mk_candidate_def
  rots_def better_def collides_any_def accept_best_def record_unplaced_def init_state_def
  unique_candidates_def quantized_dedup_def std_sort_def key_def llround_def yzx_less_def
  add_candidate_def kMaxCandidates_def volume_def

lemma ex2_valid: "valid_input ex2_truck ex2_boxes [0, 1]"
  by (simp add: valid_input_def valid_truck_def valid_box_def ex2_truck_def ex2_boxes_def upt_rec)

lemma ex2_check: "\<not> fl (99 + fl slack9) < 6 + 1 / 2000000000"
proof -
  have "fl 99 = 99" by (simp add: fl_numeral)
  then have "99 \<le> fl (99 + fl slack9)"
    using fl_slack9_pos by (intro fl_ge) simp_all
  then show ?thesis by simp
qed

lemma ex2_placed_states: "st_placed (pack_loop ex2_truck ex2_boxes [0, 1]) = [ex2_bottom, ex2_upper]"
  using ex2_check
  by (simp add: pack_loop_def ex2_truck_def ex2_boxes_def ex2_bottom_def ex2_upper_def
      pack_defs geom_defs kernel_defs const_defs fl_eval Let_def)


section \<open>Weight cap\<close>

lemma weight_step_arith:
  fixes M r w f r' S K T E s :: real
  assumes T: "T = M + s" and E: "E = T / 2 ^ 53" and M: "0 < M" and s: "0 < s"
    and rM: "r \<le> M" and lo: "- s - 3 * E \<le> r"
    and S: "S \<le> M - r + K" and w: "0 \<le> w" "w \<le> f"
    and f: "\<bar>f - (r + s)\<bar> \<le> \<bar>r + s\<bar> / 2 ^ 53"
    and r': "\<bar>r' - (r - w)\<bar> \<le> \<bar>r - w\<bar> / 2 ^ 53"
  shows "- s - 3 * E \<le> r'"
    and "S + w \<le> M - r' + K + 2 * E"
proof -
  have Tpos: "0 < T" using T M s by linarith
  have E0: "0 \<le> E" unfolding E using Tpos by simp
  have "E \<le> T / 3"
    unfolding E using Tpos by (intro divide_left_mono) simp_all
  then have E3: "3 * E \<le> T" by linarith
  have small: "\<bar>x\<bar> / 2 ^ 53 \<le> E" if "\<bar>x\<bar> \<le> T" for x :: real
    unfolding E using that by (intro divide_right_mono) simp_all
  have small2: "\<bar>x\<bar> / 2 ^ 53 \<le> 2 * E" if "\<bar>x\<bar> \<le> 2 * T" for x :: real
  proof -
    have "\<bar>x / 2\<bar> \<le> T" using that by simp
    then have "\<bar>x / 2\<bar> / 2 ^ 53 \<le> E" by (rule small)
    moreover have "\<bar>x / 2\<bar> / 2 ^ 53 = (\<bar>x\<bar> / 2 ^ 53) / 2" by simp
    ultimately show ?thesis by linarith
  qed
  have a1: "\<bar>r + s\<bar> \<le> T" using T rM lo E3 E0 by linarith
  have fle: "f \<le> r + s + E" using f small [OF a1] by linarith
  have ylo: "- s - E \<le> r - w" using fle w(2) by linarith
  have yhi: "r - w \<le> M" using rM w(1) by linarith
  have a2: "\<bar>r - w\<bar> \<le> 2 * T" using ylo yhi T Tpos E3 E0 M s by linarith
  have e: "\<bar>r' - (r - w)\<bar> \<le> 2 * E" using r' small2 [OF a2] by linarith
  show "- s - 3 * E \<le> r'" using e ylo by linarith
  show "S + w \<le> M - r' + K + 2 * E" using e S by linarith
qed

lemma weight_inv_accept:
  assumes inv: "weight_inv truck st"
    and M: "0 < truck_max_weight truck" "fl (truck_max_weight truck) = truck_max_weight truck"
    and w: "0 \<le> box_weight box" "\<not> box_weight box > fl (st_remaining_weight st + fl slack9)"
    and frame: "map unload (s_placed s) = map unload (st_placed st)"
  shows "weight_inv truck (accept_best box cands s st)"
proof -
  define M where "M = truck_max_weight truck"
  define E where "E = (M + fl slack9) / 2 ^ 53"
  define r where "r = st_remaining_weight st"
  define r' where "r' = fl (r - box_weight box)"
  define S where "S = sum_list (map ps_weight (st_placed st))"
  define n where "n = real (length (st_placed st))"
  have fw: "map ps_weight (s_placed s) = map ps_weight (st_placed st)"
    using frame by (rule frame_weights)
  have len: "length (s_placed s) = length (st_placed st)"
    using frame map_eq_imp_length_eq by blast
  have i: "r \<le> M" "- fl slack9 - 3 * E \<le> r" "S \<le> M - r + 2 * n * E"
    using inv unfolding weight_inv_def M_def [symmetric] E_def [symmetric] r_def [symmetric]
      S_def [symmetric] n_def [symmetric] by blast+
  have wf: "box_weight box \<le> fl (r + fl slack9)"
    using w(2) unfolding r_def by simp
  have ef: "\<bar>fl (r + fl slack9) - (r + fl slack9)\<bar> \<le> \<bar>r + fl slack9\<bar> / 2 ^ 53"
    by (rule fl_err)
  have er: "\<bar>r' - (r - box_weight box)\<bar> \<le> \<bar>r - box_weight box\<bar> / 2 ^ 53"
    unfolding r'_def by (rule fl_err)
  have Mpos: "0 < M" using M(1) unfolding M_def .
  have lo': "- fl slack9 - 3 * E \<le> r'"
    and S': "S + box_weight box \<le> M - r' + 2 * n * E + 2 * E"
    using weight_step_arith [OF refl E_def Mpos fl_slack9_pos i(1) i(2) i(3) w(1) wf ef er]
    by blast+
  have hi': "r' \<le> M"
    unfolding r'_def using i(1) w(1) M(2) unfolding M_def by (intro fl_le) simp_all
  have "2 * n * E + 2 * E = 2 * (n + 1) * E" by (simp add: algebra_simps)
  then have S'': "S + box_weight box \<le> M - r' + 2 * (n + 1) * E" using S' by linarith
  have placed': "st_placed (accept_best box cands s st) = s_placed s @
      [\<lparr>ps_box = best s, ps_id = box_id box, ps_weight = box_weight box,
        max_load = max_load_for (box_weight box) (aw (best s) * ad (best s)),
        load_on_top = 0\<rparr>]"
    and rem': "st_remaining_weight (accept_best box cands s st) = r'"
    unfolding r'_def r_def by (simp_all add: accept_best_def Let_def)
  have sum': "sum_list (map ps_weight (st_placed (accept_best box cands s st)))
      = S + box_weight box"
    unfolding placed' S_def by (simp add: fw)
  have n': "real (length (st_placed (accept_best box cands s st))) = n + 1"
    unfolding placed' n_def by (simp add: len)
  show ?thesis
    unfolding weight_inv_def M_def [symmetric] E_def [symmetric] rem' sum' n'
    using hi' lo' S'' by blast
qed

lemma weight_inv_frame:
  assumes "weight_inv truck st" "map unload ps' = map unload (st_placed st)"
  shows "weight_inv truck (st\<lparr>st_placed := ps', st_candidates := cs\<rparr>)"
proof -
  have "map ps_weight ps' = map ps_weight (st_placed st)"
    using assms(2) by (rule frame_weights)
  moreover have "length ps' = length (st_placed st)"
    using assms(2) map_eq_imp_length_eq by blast
  ultimately show ?thesis using assms(1) by (simp add: weight_inv_def)
qed

lemma weight_inv_unplaced: "weight_inv truck (record_unplaced box st) = weight_inv truck st"
  by (simp add: weight_inv_def record_unplaced_def)

lemma weight_inv_step:
  assumes "weight_inv truck st" "0 \<le> box_weight (boxes ! idx)"
    and "0 < truck_max_weight truck" "fl (truck_max_weight truck) = truck_max_weight truck"
  shows "weight_inv truck (pack_step truck boxes st idx)"
proof (cases "box_weight (boxes ! idx) > fl (st_remaining_weight st + fl slack9)")
  case True
  then show ?thesis using assms(1) by (simp add: pack_step_def weight_inv_unplaced)
next
  case False
  define cands where "cands = unique_candidates (st_candidates st)"
  define s where "s = sweep truck (boxes ! idx) cands (st_placed st)"
  have frame: "map unload (s_placed s) = map unload (st_placed st)"
    unfolding s_def using sweep_inv by blast
  show ?thesis
  proof (cases "found s")
    case True
    from weight_inv_accept [OF assms(1,3,4,2) False frame]
    show ?thesis using True False by (simp add: pack_step_def Let_def cands_def s_def)
  next
    case nf: False
    have "weight_inv truck (st\<lparr>st_placed := s_placed s, st_candidates := cands\<rparr>)"
      using assms(1) frame by (rule weight_inv_frame)
    then show ?thesis
      using nf False by (simp add: pack_step_def Let_def cands_def s_def weight_inv_unplaced)
  qed
qed

lemma weight_inv_foldl:
  assumes "weight_inv truck st" "\<forall>idx\<in>set ord. 0 \<le> box_weight (boxes ! idx)"
    and "0 < truck_max_weight truck" "fl (truck_max_weight truck) = truck_max_weight truck"
  shows "weight_inv truck (foldl (pack_step truck boxes) st ord)"
  using assms(1,2)
proof (induction ord arbitrary: st)
  case Nil
  then show ?case by simp
next
  case (Cons idx ord)
  have "weight_inv truck (pack_step truck boxes st idx)"
    using Cons.prems assms(3,4) by (intro weight_inv_step) simp_all
  then show ?case using Cons.IH Cons.prems(2) by simp
qed

lemma weight_inv_loop:
  assumes "valid_input truck boxes ord" "fl (truck_max_weight truck) = truck_max_weight truck"
  shows "weight_inv truck (pack_loop truck boxes ord)"
proof -
  have M: "0 < truck_max_weight truck"
    using assms(1) by (simp add: valid_input_def valid_truck_def)
  have "0 \<le> (truck_max_weight truck + fl slack9) / 2 ^ 53"
    using M fl_slack9_pos by simp
  then have "- fl slack9 - 3 * ((truck_max_weight truck + fl slack9) / 2 ^ 53) \<le> truck_max_weight truck"
    using M fl_slack9_pos by linarith
  then have "weight_inv truck (init_state truck boxes)"
    by (simp add: weight_inv_def init_state_def)
  then show ?thesis
    unfolding pack_loop_def
    using valid_input_weights [OF assms(1)] M assms(2) by (rule weight_inv_foldl)
qed

lemma pack_step_overweight:
  "box_weight (boxes ! idx) > fl (st_remaining_weight st + fl slack9) \<Longrightarrow>
   pack_step truck boxes st idx
     = st\<lparr>st_result :=
           (st_result st)\<lparr>unplaced := unplaced (st_result st) @ [box_id (boxes ! idx)]\<rparr>\<rparr>"
  by (simp add: pack_step_def record_unplaced_def)

text \<open>
  Claim C1, as the code has it. The weight counters are doubles, and \<open>1e-9\<close> is the double
  \<open>fl (1 / 10^9)\<close>. On a valid input whose \<open>max_weight\<close> is a double, the weights of the placed
  boxes sum to at most \<open>truck.max_weight + 1e-9\<close> plus the rounding the counter
  \<open>remaining_weight\<close> has absorbed: at most \<open>(2k + 3) \<sqdot> 2^-53 \<sqdot> (max_weight + 1e-9)\<close> for \<open>k\<close>
  placed boxes. The placed states are the boxes of some of the indices of the order, and the
  result lists their ids. A box whose weight exceeds the rounded sum
  \<open>fl (remaining_weight + 1e-9)\<close>, and so any box that exceeds \<open>remaining_weight + 1e-9\<close> by
  more than \<open>2^-53 \<sqdot> |remaining_weight + 1e-9|\<close>, is recorded as unplaced and the step does
  nothing else: the placed states and the candidate points are as before.
\<close>

theorem weight_cap:
  assumes "valid_input truck boxes ord"
    and "fl (truck_max_weight truck) = truck_max_weight truck"
  shows "sum_list (map ps_weight (st_placed (pack_loop truck boxes ord)))
           \<le> truck_max_weight truck + fl slack9
             + (2 * real (length (placed (pack_by_order truck boxes ord))) + 3)
               * ((truck_max_weight truck + fl slack9) / 2 ^ 53)
     \<and> (\<exists>is js. mset is + mset js = mset ord
           \<and> map ps_weight (st_placed (pack_loop truck boxes ord))
                = map (\<lambda>i. box_weight (boxes ! i)) is
           \<and> map pl_id (placed (pack_by_order truck boxes ord))
                = map (\<lambda>i. box_id (boxes ! i)) is)
     \<and> (\<forall>st idx. box_weight (boxes ! idx) > fl (st_remaining_weight st + fl slack9) \<longrightarrow>
           pack_step truck boxes st idx
             = st\<lparr>st_result :=
                   (st_result st)\<lparr>unplaced := unplaced (st_result st) @ [box_id (boxes ! idx)]\<rparr>\<rparr>)
     \<and> (\<forall>st idx. box_weight (boxes ! idx)
                    > st_remaining_weight st + fl slack9
                      + \<bar>st_remaining_weight st + fl slack9\<bar> / 2 ^ 53 \<longrightarrow>
           pack_step truck boxes st idx
             = st\<lparr>st_result :=
                   (st_result st)\<lparr>unplaced := unplaced (st_result st) @ [box_id (boxes ! idx)]\<rparr>\<rparr>)"
proof (intro conjI allI impI)
  define fin where "fin = pack_loop truck boxes ord"
  have winv: "weight_inv truck fin"
    unfolding fin_def using assms by (rule weight_inv_loop)
  have pinv: "pack_inv truck fin"
    unfolding fin_def using assms(1) by (rule pack_inv_loop)
  have "length (map placement_box (placed (st_result fin))) = length (map ps_box (st_placed fin))"
    using pinv by (simp only: pack_inv_def)
  then have len: "length (placed (pack_by_order truck boxes ord)) = length (st_placed fin)"
    unfolding placed_pack_by_order fin_def by simp
  define E where "E = (truck_max_weight truck + fl slack9) / 2 ^ 53"
  have "sum_list (map ps_weight (st_placed fin))
      \<le> truck_max_weight truck - st_remaining_weight fin
        + 2 * real (length (st_placed fin)) * E"
    and "- fl slack9 - 3 * E \<le> st_remaining_weight fin"
    using winv unfolding weight_inv_def E_def [symmetric] by blast+
  moreover have "(2 * real (length (st_placed fin)) + 3) * E
      = 2 * real (length (st_placed fin)) * E + 3 * E"
    by (simp add: algebra_simps)
  ultimately have "sum_list (map ps_weight (st_placed fin))
      \<le> truck_max_weight truck + fl slack9 + (2 * real (length (st_placed fin)) + 3) * E"
    by linarith
  then have "sum_list (map ps_weight (st_placed fin))
      \<le> truck_max_weight truck + fl slack9
        + (2 * real (length (st_placed fin)) + 3) * ((truck_max_weight truck + fl slack9) / 2 ^ 53)"
    unfolding E_def .
  then show "sum_list (map ps_weight (st_placed (pack_loop truck boxes ord)))
           \<le> truck_max_weight truck + fl slack9
             + (2 * real (length (placed (pack_by_order truck boxes ord))) + 3)
               * ((truck_max_weight truck + fl slack9) / 2 ^ 53)"
    unfolding len fin_def .
  show "\<exists>is js. mset is + mset js = mset ord
           \<and> map ps_weight (st_placed (pack_loop truck boxes ord))
                = map (\<lambda>i. box_weight (boxes ! i)) is
           \<and> map pl_id (placed (pack_by_order truck boxes ord))
                = map (\<lambda>i. box_id (boxes ! i)) is"
    using part_inv_loop [of boxes ord truck]
    unfolding part_inv_def placed_pack_by_order by blast
next
  fix st :: PackState and idx
  assume "box_weight (boxes ! idx) > fl (st_remaining_weight st + fl slack9)"
  then show "pack_step truck boxes st idx
      = st\<lparr>st_result :=
            (st_result st)\<lparr>unplaced := unplaced (st_result st) @ [box_id (boxes ! idx)]\<rparr>\<rparr>"
    by (rule pack_step_overweight)
next
  fix st :: PackState and idx
  assume a: "box_weight (boxes ! idx)
      > st_remaining_weight st + fl slack9 + \<bar>st_remaining_weight st + fl slack9\<bar> / 2 ^ 53"
  have "\<bar>fl (st_remaining_weight st + fl slack9) - (st_remaining_weight st + fl slack9)\<bar>
      \<le> \<bar>st_remaining_weight st + fl slack9\<bar> / 2 ^ 53"
    by (rule fl_err)
  then have "box_weight (boxes ! idx) > fl (st_remaining_weight st + fl slack9)"
    using a by linarith
  then show "pack_step truck boxes st idx
      = st\<lparr>st_result :=
            (st_result st)\<lparr>unplaced := unplaced (st_result st) @ [box_id (boxes ! idx)]\<rparr>\<rparr>"
    by (rule pack_step_overweight)
qed

lemma ex2_small_valid: "valid_input ex2_small_truck ex2_boxes [1, 0]"
  by (simp add: valid_input_def valid_truck_def valid_box_def ex2_small_truck_def ex2_boxes_def
      upt_rec)

theorem weight_cap_witness:
  "valid_input ex2_truck ex2_boxes [0, 1]
   \<and> fl (truck_max_weight ex2_truck) = truck_max_weight ex2_truck
   \<and> sum_list (map ps_weight (st_placed (pack_loop ex2_truck ex2_boxes [0, 1])))
        = 7 + 1 / 2000000000
   \<and> sum_list (map ps_weight (st_placed (pack_loop ex2_truck ex2_boxes [0, 1])))
        \<le> truck_max_weight ex2_truck + fl slack9
          + (2 * real (length (placed (pack_by_order ex2_truck ex2_boxes [0, 1]))) + 3)
            * ((truck_max_weight ex2_truck + fl slack9) / 2 ^ 53)
   \<and> valid_input ex2_small_truck ex2_boxes [1, 0]
   \<and> fl (truck_max_weight ex2_small_truck) = truck_max_weight ex2_small_truck
   \<and> box_weight (ex2_boxes ! 1)
        > fl (st_remaining_weight (init_state ex2_small_truck ex2_boxes) + fl slack9)
   \<and> unplaced (st_result
        (pack_step ex2_small_truck ex2_boxes (init_state ex2_small_truck ex2_boxes) 1)) = [''B'']"
proof -
  let ?st = "init_state ex2_small_truck ex2_boxes"
  have d1: "fl (truck_max_weight ex2_truck) = truck_max_weight ex2_truck"
    by (simp add: ex2_truck_def fl_numeral)
  have d2: "fl (truck_max_weight ex2_small_truck) = truck_max_weight ex2_small_truck"
    by (simp add: ex2_small_truck_def fl_numeral)
  have "fl 6 = 6" by (simp add: fl_numeral)
  then have "fl (5 + fl slack9) \<le> 6"
    by (intro fl_le) (simp_all add: fl_slack9)
  then have h: "box_weight (ex2_boxes ! 1) > fl (st_remaining_weight ?st + fl slack9)"
    by (simp add: ex2_boxes_def ex2_small_truck_def init_state_def)
  have w: "sum_list (map ps_weight (st_placed (pack_loop ex2_truck ex2_boxes [0, 1])))
     = 7 + 1 / 2000000000"
    unfolding ex2_placed_states by (simp add: ex2_bottom_def ex2_upper_def)
  have u: "unplaced (st_result ?st) = []" by (simp add: init_state_def)
  have b: "box_id (ex2_boxes ! 1) = ''B''" by (simp add: ex2_boxes_def)
  from weight_cap [OF ex2_valid d1]
  have 1: "sum_list (map ps_weight (st_placed (pack_loop ex2_truck ex2_boxes [0, 1])))
        \<le> truck_max_weight ex2_truck + fl slack9
          + (2 * real (length (placed (pack_by_order ex2_truck ex2_boxes [0, 1]))) + 3)
            * ((truck_max_weight ex2_truck + fl slack9) / 2 ^ 53)"
    by blast
  from weight_cap [OF ex2_small_valid d2] h
  have 3: "pack_step ex2_small_truck ex2_boxes ?st 1
        = ?st\<lparr>st_result :=
            (st_result ?st)\<lparr>unplaced := unplaced (st_result ?st) @ [box_id (ex2_boxes ! 1)]\<rparr>\<rparr>"
    by blast
  have 4: "unplaced (st_result (pack_step ex2_small_truck ex2_boxes ?st 1)) = [''B'']"
    by (subst 3) (simp add: u b del: One_nat_def)
  show ?thesis by (intro conjI ex2_valid d1 w 1 ex2_small_valid d2 h 4)
qed

text \<open>
  The claim as stated, with the bound \<open>max_weight + 1e-9\<close>, fails for the budget \<open>2^54\<close>:
  after the box of weight 1 the counter holds \<open>fl (2^54 - 1) = 2^54\<close>, so the box of weight
  \<open>2^54\<close> passes the test and both boxes are placed, \<open>2^54 + 1\<close> in all.
\<close>

theorem weight_cap_counterexample:
  "valid_input ex54_truck ex54_boxes [0, 1]
   \<and> fl (truck_max_weight ex54_truck) = truck_max_weight ex54_truck
   \<and> map ps_weight (st_placed (pack_loop ex54_truck ex54_boxes [0, 1]))
       = [1, 18014398509481984]
   \<and> \<not> sum_list (map ps_weight (st_placed (pack_loop ex54_truck ex54_boxes [0, 1])))
         \<le> truck_max_weight ex54_truck + slack9
   \<and> \<not> sum_list (map ps_weight (st_placed (pack_loop ex54_truck ex54_boxes [0, 1])))
         \<le> truck_max_weight ex54_truck + fl slack9"
proof -
  have v: "valid_input ex54_truck ex54_boxes [0, 1]"
    by (simp add: valid_input_def valid_truck_def valid_box_def ex54_truck_def ex54_boxes_def
        upt_rec)
  have fM: "fl 18014398509481984 = 18014398509481984"
    using fl_power2 [of 54] by simp
  have ft: "fl 18014398509481983 = 18014398509481984"
    using fl_tie by simp
  have d: "fl (truck_max_weight ex54_truck) = truck_max_weight ex54_truck"
    by (simp add: ex54_truck_def fM)
  have p: "map ps_weight (st_placed (pack_loop ex54_truck ex54_boxes [0, 1]))
       = [1, 18014398509481984]"
    by (simp add: pack_loop_def ex54_truck_def ex54_boxes_def
        pack_defs geom_defs kernel_defs const_defs fl_eval fM ft Let_def)
  have s: "\<not> sum_list (map ps_weight (st_placed (pack_loop ex54_truck ex54_boxes [0, 1])))
         \<le> truck_max_weight ex54_truck + slack9"
    unfolding p by (simp add: ex54_truck_def slack9_def)
  have s': "\<not> sum_list (map ps_weight (st_placed (pack_loop ex54_truck ex54_boxes [0, 1])))
         \<le> truck_max_weight ex54_truck + fl slack9"
    unfolding p fl_slack9 by (simp add: ex54_truck_def)
  show ?thesis by (intro conjI v d p s s')
qed

section \<open>Crush budget\<close>




section \<open>Non-overlap\<close>



section \<open>The sweep and the lexicographic minimum\<close>

lemma ex3_valid: "valid_input ex3_truck ex3_boxes [0, 1, 2]"
  by (simp add: valid_input_def valid_truck_def valid_box_def ex3_truck_def ex3_boxes_def upt_rec)

lemma ex3_step1:
  "pack_loop ex3_truck ex3_boxes [0, 1] = ex3_before"
  by (simp add: pack_loop_def ex3_truck_def ex3_boxes_def ex3_before_def
      pack_defs geom_defs kernel_defs const_defs fl_eval Let_def)

lemma ex3_cands:
  "unique_candidates (st_candidates ex3_before) =
        [\<lparr>cand_x = 0, cand_y = 0, cand_z = 0\<rparr>,
         \<lparr>cand_x = 0, cand_y = 0, cand_z = 2\<rparr>,
         \<lparr>cand_x = 0, cand_y = 1, cand_z = 0\<rparr>,
         \<lparr>cand_x = 0, cand_y = 1, cand_z = 1\<rparr>,
         \<lparr>cand_x = 0, cand_y = 2, cand_z = 0\<rparr>,
         \<lparr>cand_x = 1, cand_y = 1, cand_z = 0\<rparr>,
         \<lparr>cand_x = 2, cand_y = 0, cand_z = 0\<rparr>]"
  by (simp add: ex3_before_def pack_defs Let_def)

lemma ex3_step2:
  "placed (st_result (pack_step ex3_truck ex3_boxes ex3_before 2))
     = placed (st_result ex3_before)
       @ [\<lparr>pl_id = ''B'', pl_x = 0, pl_y = 1, pl_z = 1, pl_w = 1, pl_h = 1, pl_d = 1\<rparr>]"
  by (simp add: ex3_truck_def ex3_boxes_def ex3_before_def
      pack_defs geom_defs kernel_defs const_defs fl_eval Let_def)

lemma ex3_missed_ok:
  "inside_truck ex3_truck ex3_missed \<and> \<not> collides_any (st_placed ex3_before) ex3_missed
   \<and> fst (support_ok_and_apply_load ex3_missed 3 (st_placed ex3_before))"
  by (simp add: ex3_truck_def ex3_missed_def ex3_before_def collides_any_def
      geom_defs kernel_defs const_defs Let_def)


lemma pack_loop_snoc:
  "pack_loop truck boxes (ord @ [idx]) = pack_step truck boxes (pack_loop truck boxes ord) idx"
  by (simp add: pack_loop_def)

lemma ex3_placed:
  "placed (pack_by_order ex3_truck ex3_boxes [0, 1, 2])
     = [\<lparr>pl_id = ''S'', pl_x = 0, pl_y = 0, pl_z = 0, pl_w = 2, pl_h = 1, pl_d = 2\<rparr>,
        \<lparr>pl_id = ''T'', pl_x = 0, pl_y = 1, pl_z = 0, pl_w = 1, pl_h = 1, pl_d = 1\<rparr>,
        \<lparr>pl_id = ''B'', pl_x = 0, pl_y = 1, pl_z = 1, pl_w = 1, pl_h = 1, pl_d = 1\<rparr>]"
proof -
  have "pack_loop ex3_truck ex3_boxes ([0, 1] @ [2])
      = pack_step ex3_truck ex3_boxes ex3_before 2"
    unfolding pack_loop_snoc ex3_step1 ..
  then have "placed (pack_by_order ex3_truck ex3_boxes [0, 1, 2])
      = placed (st_result (pack_step ex3_truck ex3_boxes ex3_before 2))"
    unfolding placed_pack_by_order by simp
  then show ?thesis unfolding ex3_step2 by (simp add: ex3_before_def)
qed

text \<open>
  Claim C4 at a concrete input. Truck 2 x 2 x 2; S (2 x 1 x 2, weight 1) lies on the floor
  and carries T (1 x 1 x 1, weight 1) at (0, 1, 0); its budget is 6. B (1 x 1 x 1,
  weight 3) passes the weight check. The candidate point (1, 1, 0) is in the normalized
  set, and B there, in its first orientation, is inside the truck, collides with
  nothing and passes the support and crush kernel on the placed boxes as they are when
  B's turn comes (S would carry 1 + 3). Its origin is below the accepted one in the
  order (y, z, x). Yet the sweep places B at (0, 1, 1): that point is enumerated first,
  its load stays applied to S while (1, 1, 0) is tried, and the crush check there sees
  1 + 3 + 3 > 6.
\<close>

theorem sweep_passes_over_smaller_origin:
  "valid_input ex3_truck ex3_boxes [0, 1, 2]
   \<and> pack_loop ex3_truck ex3_boxes [0, 1] = ex3_before
   \<and> \<not> box_weight (ex3_boxes ! 2) > st_remaining_weight ex3_before + slack9
   \<and> \<not> box_weight (ex3_boxes ! 2) > fl (st_remaining_weight ex3_before + fl slack9)
   \<and> \<lparr>cand_x = 1, cand_y = 1, cand_z = 0\<rparr> \<in> set (unique_candidates (st_candidates ex3_before))
   \<and> hd (rots (ex3_boxes ! 2)) = (1, 1, 1)
   \<and> mk_candidate \<lparr>cand_x = 1, cand_y = 1, cand_z = 0\<rparr> (1, 1, 1) = ex3_missed
   \<and> inside_truck ex3_truck ex3_missed
   \<and> \<not> collides_any (st_placed ex3_before) ex3_missed
   \<and> fst (support_ok_and_apply_load ex3_missed (box_weight (ex3_boxes ! 2)) (st_placed ex3_before))
   \<and> better ex3_missed ex3_accepted
   \<and> placement_box (last (placed (pack_by_order ex3_truck ex3_boxes [0, 1, 2]))) = ex3_accepted
   \<and> pl_id (last (placed (pack_by_order ex3_truck ex3_boxes [0, 1, 2]))) = ''B''"
proof -
  have w: "box_weight (ex3_boxes ! 2) = 3" by (simp add: ex3_boxes_def)
  have 1: "\<not> box_weight (ex3_boxes ! 2) > st_remaining_weight ex3_before + slack9"
    unfolding w by (simp add: ex3_before_def slack9_def)
  have c1: "\<not> box_weight (ex3_boxes ! 2) > fl (st_remaining_weight ex3_before + fl slack9)"
    unfolding w by (simp add: ex3_before_def slack9_def fl_eval)
  have 2: "\<lparr>cand_x = 1, cand_y = 1, cand_z = 0\<rparr>
      \<in> set (unique_candidates (st_candidates ex3_before))"
    unfolding ex3_cands by simp
  have 3: "hd (rots (ex3_boxes ! 2)) = (1, 1, 1)"
    by (simp add: rots_def ex3_boxes_def)
  have 4: "mk_candidate \<lparr>cand_x = 1, cand_y = 1, cand_z = 0\<rparr> (1, 1, 1) = ex3_missed"
    by (simp add: mk_candidate_def ex3_missed_def)
  have 5: "better ex3_missed ex3_accepted"
    by (simp add: better_def ex3_missed_def ex3_accepted_def)
  have 6: "placement_box (last (placed (pack_by_order ex3_truck ex3_boxes [0, 1, 2])))
      = ex3_accepted"
    unfolding ex3_placed by (simp add: placement_box_def ex3_accepted_def)
  have 7: "pl_id (last (placed (pack_by_order ex3_truck ex3_boxes [0, 1, 2]))) = ''B''"
    unfolding ex3_placed by simp
  show ?thesis
    unfolding w using ex3_valid ex3_step1 1 c1 2 3 4 5 6 7 ex3_missed_ok
    by (simp only: w simp_thms)
qed

section \<open>GA driver: the best score never drops\<close>

lemma evaluated_evaluate: "evaluated truck boxes (evaluate truck boxes ord)"
  by (simp add: evaluated_def evaluate_def Let_def)


lemma hd_sort_score:
  assumes "x \<in> set pop"
  shows "ind_score x \<le> ind_score (hd (std_sort score_greater pop))"
    and "hd (std_sort score_greater pop) \<in> set pop"
proof -
  define ys where "ys = std_sort score_greater pop"
  have set_ys: "set ys = set pop"
    unfolding ys_def std_sort_def by (rule set_stable_sort_by)
  have srt: "sorted_wrt (\<lambda>a b. \<not> score_greater b a) ys"
    unfolding ys_def std_sort_def by (rule sorted_stable_sort_by [OF strict_weak_score])
  have "ys \<noteq> []" using assms set_ys by auto
  then obtain y ys' where ys: "ys = y # ys'" by (cases ys) auto
  have "x = y \<or> x \<in> set ys'" using assms set_ys ys by auto
  then have "ind_score x \<le> ind_score y"
    using srt ys by (auto simp: score_greater_def)
  moreover have "y \<in> set pop" using ys set_ys by auto
  moreover have "hd (std_sort score_greater pop) = y"
    unfolding ys_def [symmetric] ys by simp
  ultimately show "ind_score x \<le> ind_score (hd (std_sort score_greater pop))"
    and "hd (std_sort score_greater pop) \<in> set pop"
    by simp_all
qed






lemma final_population_eq:
  assumes "random_individuals L truck boxes (nat (cap_population (length boxes) population) - 1)
       (mt19937 L seed) = (others, g1)"
  shows "final_population L truck boxes population generations mr seed
     = fst (generations_loop L truck boxes (cap_population (length boxes) population) mr
              (nat (cap_generations (length boxes) generations))
              (heuristic_individual truck boxes # others, g1))"
  unfolding final_population_def by (simp only: Let_def assms prod.case)







section \<open>GA driver: every individual's order is a permutation\<close>

lemma rng_ok_int:
  "rng_ok L \<Longrightarrow> lo \<le> hi \<Longrightarrow> uniform_int L lo hi g = (v, g1) \<Longrightarrow> lo \<le> v \<and> v \<le> hi"
  unfolding rng_ok_def by (metis fst_conv)

lemma rng_ok_shuffle: "rng_ok L \<Longrightarrow> shuffle L xs g = (ys, g1) \<Longrightarrow> mset ys = mset xs"
  unfolding rng_ok_def by (metis fst_conv)

lemma perm_order_evaluate:
  "perm_order boxes (evaluate truck boxes ord) = (mset ord = mset [0..<length boxes])"
  by (simp add: perm_order_def evaluate_def Let_def)

lemma heuristic_ok:
  "evaluated truck boxes (heuristic_individual truck boxes)
   \<and> perm_order boxes (heuristic_individual truck boxes)"
  by (simp add: heuristic_individual_def evaluated_evaluate perm_order_evaluate
      mset_stable_sort_by)

lemma random_individual_ok:
  assumes "rng_ok L" "random_individual L truck boxes g = (ind, g1)"
  shows "evaluated truck boxes ind \<and> perm_order boxes ind"
proof -
  obtain ord g' where s: "shuffle L [0..<length boxes] g = (ord, g')"
    by (cases "shuffle L [0..<length boxes] g")
  have "mset ord = mset [0..<length boxes]"
    using rng_ok_shuffle [OF assms(1) s] .
  moreover have "ind = evaluate truck boxes ord"
    using assms(2) by (simp add: random_individual_def s)
  ultimately show ?thesis by (simp add: evaluated_evaluate perm_order_evaluate)
qed

lemma random_individuals_ok:
  assumes "rng_ok L"
  shows "random_individuals L truck boxes k g = (inds, g1) \<Longrightarrow>
     length inds = k \<and> list_all (evaluated truck boxes) inds
     \<and> list_all (perm_order boxes) inds"
proof (induction k arbitrary: g inds g1)
  case 0
  then show ?case by simp
next
  case (Suc k)
  obtain ind g' where c: "random_individual L truck boxes g = (ind, g')"
    by (cases "random_individual L truck boxes g")
  obtain rest g'' where r: "random_individuals L truck boxes k g' = (rest, g'')"
    by (cases "random_individuals L truck boxes k g'")
  have "inds = ind # rest" using Suc.prems by (simp add: c r)
  then show ?case using random_individual_ok [OF assms c] Suc.IH [OF r] by simp
qed

lemma select_parent_mem:
  assumes "rng_ok L" "length pop = nat population" "0 < population"
    and "select_parent L pop population g = (p, g1)"
  shows "p \<in> set pop"
proof -
  obtain i1 g' where 1: "uniform_int L 0 (nat (population - 1)) g = (i1, g')"
    by (cases "uniform_int L 0 (nat (population - 1)) g")
  obtain i2 g'' where 2: "uniform_int L 0 (nat (population - 1)) g' = (i2, g'')"
    by (cases "uniform_int L 0 (nat (population - 1)) g'")
  obtain i3 g''' where 3: "uniform_int L 0 (nat (population - 1)) g'' = (i3, g''')"
    by (cases "uniform_int L 0 (nat (population - 1)) g''")
  have b: "nat (population - 1) < length pop" using assms(2,3) by simp
  have "i1 < length pop" "i2 < length pop" "i3 < length pop"
    using rng_ok_int [OF assms(1) _ 1] rng_ok_int [OF assms(1) _ 2]
      rng_ok_int [OF assms(1) _ 3] b by simp_all
  then have "pop ! i1 \<in> set pop" "pop ! i2 \<in> set pop" "pop ! i3 \<in> set pop"
    by simp_all
  moreover have "p = pop ! i1 \<or> p = pop ! i2 \<or> p = pop ! i3"
    using assms(4) unfolding select_parent_def 1 2 3 prod.case by (auto simp: Let_def split: if_splits)
  ultimately show ?thesis by auto
qed

lemma crossover_ok:
  assumes "rng_ok L" "0 < n" "n \<le> SIZE_MAX"
    and "mset (ind_order a) = mset [0..<n]" "mset (ind_order b) = mset [0..<n]"
    and "crossover L n a b g = (c, g1)"
  shows "mset c = mset [0..<n]"
proof -
  obtain i g' where 1: "uniform_int L 0 (n - 1) g = (i, g')"
    by (cases "uniform_int L 0 (n - 1) g")
  obtain j g'' where 2: "uniform_int L 0 (n - 1) g' = (j, g'')"
    by (cases "uniform_int L 0 (n - 1) g'")
  have "i < n" "j < n"
    using rng_ok_int [OF assms(1) _ 1] rng_ok_int [OF assms(1) _ 2] assms(2) by simp_all
  moreover have "c = crossover_at n (ind_order a) (ind_order b) i j"
    using assms(6) unfolding crossover_def 1 2 prod.case by simp
  ultimately show ?thesis
    using crossover_at_perm [OF assms(3,4,5)] by simp
qed

lemma mutate_ok:
  assumes "rng_ok L" "0 < n" "mset ord = mset [0..<n]" "mutate L n mr ord g = (c, g1)"
  shows "mset c = mset [0..<n]"
proof -
  obtain u g' where 0: "uniform_real L g = (u, g')" by (cases "uniform_real L g")
  obtain a g'' where 1: "uniform_int L 0 (n - 1) g' = (a, g'')"
    by (cases "uniform_int L 0 (n - 1) g'")
  obtain b g''' where 2: "uniform_int L 0 (n - 1) g'' = (b, g''')"
    by (cases "uniform_int L 0 (n - 1) g''")
  have len: "length ord = n" using perm_upt_facts(1) [OF assms(3)] .
  have ab: "a < length ord" "b < length ord"
    using rng_ok_int [OF assms(1) _ 1] rng_ok_int [OF assms(1) _ 2] assms(2) len by simp_all
  have sw: "mset ((ord[a := ord ! b])[b := ord ! a]) = mset ord"
    using mset_swap [OF ab(2) ab(1)] .
  have "c = ord \<or> c = (ord[a := ord ! b])[b := ord ! a]"
    using assms(4) unfolding mutate_def 0 1 2 prod.case by (auto split: if_splits)
  then show ?thesis using sw assms(3) by auto
qed

lemma make_child_ok:
  assumes "rng_ok L" "boxes \<noteq> []" "length boxes \<le> SIZE_MAX" "0 < population"
    and "pop_ok truck boxes population pop"
    and "make_child L truck boxes population mr pop g = (c, g1)"
  shows "evaluated truck boxes c \<and> perm_order boxes c"
proof -
  obtain p1 ga where 1: "select_parent L pop population g = (p1, ga)"
    by (cases "select_parent L pop population g")
  obtain p2 gb where 2: "select_parent L pop population ga = (p2, gb)"
    by (cases "select_parent L pop population ga")
  obtain c0 gc where 3: "crossover L (length boxes) p1 p2 gb = (c0, gc)"
    by (cases "crossover L (length boxes) p1 p2 gb")
  obtain c1 gd where 4: "mutate L (length boxes) mr c0 gc = (c1, gd)"
    by (cases "mutate L (length boxes) mr c0 gc")
  have len: "length pop = nat population" and perms: "list_all (perm_order boxes) pop"
    using assms(5) by (simp_all add: pop_ok_def)
  have n: "0 < length boxes" using assms(2) by simp
  have "p1 \<in> set pop" "p2 \<in> set pop"
    using select_parent_mem [OF assms(1) len assms(4) 1]
      select_parent_mem [OF assms(1) len assms(4) 2] by simp_all
  then have "mset (ind_order p1) = mset [0..<length boxes]"
    "mset (ind_order p2) = mset [0..<length boxes]"
    using perms by (simp_all add: list_all_iff perm_order_def)
  from crossover_ok [OF assms(1) n assms(3) this 3]
  have "mset c0 = mset [0..<length boxes]" .
  from mutate_ok [OF assms(1) n this 4]
  have "mset c1 = mset [0..<length boxes]" .
  moreover have "c = evaluate truck boxes c1"
    using assms(6) unfolding make_child_def 1 2 3 4 prod.case by simp
  ultimately show ?thesis by (simp add: evaluated_evaluate perm_order_evaluate)
qed

lemma make_children_ok:
  assumes "rng_ok L" "boxes \<noteq> []" "length boxes \<le> SIZE_MAX" "0 < population"
    and "pop_ok truck boxes population pop"
  shows "make_children L truck boxes population mr pop k g = (cs, g1) \<Longrightarrow>
     length cs = k \<and> list_all (evaluated truck boxes) cs \<and> list_all (perm_order boxes) cs"
proof (induction k arbitrary: g cs g1)
  case 0
  then show ?case by simp
next
  case (Suc k)
  obtain c g' where c: "make_child L truck boxes population mr pop g = (c, g')"
    by (cases "make_child L truck boxes population mr pop g")
  obtain rest g'' where r: "make_children L truck boxes population mr pop k g' = (rest, g'')"
    by (cases "make_children L truck boxes population mr pop k g'")
  have "cs = c # rest" using Suc.prems by (simp add: c r)
  then show ?case
    using make_child_ok [OF assms c] Suc.IH [OF r] by simp
qed

lemma pop_ok_sort:
  "pop_ok truck boxes population pop \<Longrightarrow>
   pop_ok truck boxes population (std_sort score_greater pop)"
  by (simp add: pop_ok_def std_sort_def length_stable_sort_by list_all_iff set_stable_sort_by)

lemma generation_ok:
  assumes "rng_ok L" "boxes \<noteq> []" "length boxes \<le> SIZE_MAX" "0 < population"
    and "pop_ok truck boxes population pop"
  shows "pop_ok truck boxes population (fst (generation L truck boxes population mr (pop, g)))"
proof -
  define sorted_pop where "sorted_pop = std_sort score_greater pop"
  define elites where "elites = take (nat (max 1 (population div 10))) sorted_pop"
  obtain children g1 where ch:
    "make_children L truck boxes population mr sorted_pop (nat population - length elites) g
       = (children, g1)"
    by (cases "make_children L truck boxes population mr sorted_pop
                 (nat population - length elites) g")
  have "generation L truck boxes population mr (pop, g) =
      (case make_children L truck boxes population mr sorted_pop
              (nat population - length elites) g of
         (children, g1) \<Rightarrow> (elites @ children, g1))"
    unfolding generation_def sorted_pop_def elites_def by (simp only: Let_def prod.case)
  then have res: "fst (generation L truck boxes population mr (pop, g)) = elites @ children"
    by (simp only: ch prod.case fst_conv)
  have so: "pop_ok truck boxes population sorted_pop"
    unfolding sorted_pop_def using assms(5) by (rule pop_ok_sort)
  have sub: "set elites \<subseteq> set sorted_pop"
    unfolding elites_def by (rule set_take_subset)
  have le: "length elites \<le> nat population"
    unfolding elites_def using so by (simp add: pop_ok_def)
  have el: "list_all (evaluated truck boxes) elites" "list_all (perm_order boxes) elites"
    using so sub by (auto simp: pop_ok_def list_all_iff)
  have "length children = nat population - length elites
      \<and> list_all (evaluated truck boxes) children \<and> list_all (perm_order boxes) children"
    using make_children_ok [OF assms(1,2,3,4) so ch] .
  then show ?thesis
    unfolding res pop_ok_def using le el by simp
qed

lemma generations_loop_ok:
  assumes "rng_ok L" "boxes \<noteq> []" "length boxes \<le> SIZE_MAX" "0 < population"
  shows "pop_ok truck boxes population (fst st) \<Longrightarrow>
     pop_ok truck boxes population (fst (generations_loop L truck boxes population mr k st))"
proof (induction k arbitrary: st)
  case 0
  then show ?case by simp
next
  case (Suc k)
  obtain pop g where st: "st = (pop, g)" by (cases st)
  have "pop_ok truck boxes population (fst (generation L truck boxes population mr st))"
    using Suc.prems generation_ok [OF assms, of truck pop mr g] st by simp
  from Suc.IH [OF this] show ?case by simp
qed

lemma cap_population_pos: "4 \<le> cap_population n population"
  by (simp add: cap_population_def)

lemma final_population_ok:
  assumes "rng_ok L" "boxes \<noteq> []" "length boxes \<le> SIZE_MAX"
  shows "pop_ok truck boxes (cap_population (length boxes) population)
     (final_population L truck boxes population generations mr seed)"
proof -
  obtain others g1 where o:
    "random_individuals L truck boxes (nat (cap_population (length boxes) population) - 1)
       (mt19937 L seed) = (others, g1)"
    by (cases "random_individuals L truck boxes
                 (nat (cap_population (length boxes) population) - 1) (mt19937 L seed)")
  have pos: "0 < cap_population (length boxes) population"
    using cap_population_pos [of "length boxes" population] by simp
  have "length others = nat (cap_population (length boxes) population) - 1
     \<and> list_all (evaluated truck boxes) others \<and> list_all (perm_order boxes) others"
    using random_individuals_ok [OF assms(1) o] .
  then have "pop_ok truck boxes (cap_population (length boxes) population)
      (fst (heuristic_individual truck boxes # others, g1))"
    using heuristic_ok [of truck boxes] pos by (simp add: pop_ok_def)
  from generations_loop_ok [OF assms pos this] show ?thesis
    unfolding final_population_eq [OF o] .
qed

lemma optimize_ga_partition:
  assumes "rng_ok L" "length boxes \<le> SIZE_MAX"
  shows "mset (map pl_id (placed (optimize_ga L truck boxes population generations mr seed)))
     + mset (unplaced (optimize_ga L truck boxes population generations mr seed))
     = mset (map box_id boxes)"
proof (cases "boxes = []")
  case True
  then show ?thesis by (simp add: optimize_ga_def empty_result_def)
next
  case False
  define fin where "fin = final_population L truck boxes population generations mr seed"
  have ok: "pop_ok truck boxes (cap_population (length boxes) population) fin"
    unfolding fin_def using assms(1) False assms(2) by (rule final_population_ok)
  have "length fin = nat (cap_population (length boxes) population)"
    using ok by (simp add: pop_ok_def)
  then have "fin \<noteq> []"
    using cap_population_pos [of "length boxes" population] by auto
  then obtain x where "x \<in> set fin" by (cases fin) auto
  then have mem: "hd (std_sort score_greater fin) \<in> set fin"
    by (rule hd_sort_score(2))
  define w where "w = hd (std_sort score_greater fin)"
  have ev: "evaluated truck boxes w" and pm: "perm_order boxes w"
    using ok mem unfolding w_def by (simp_all add: pop_ok_def list_all_iff)
  have "ind_result w = ind_result (evaluate truck boxes (ind_order w))"
    using ev by (simp add: evaluated_def)
  then have res: "ind_result w = pack_by_order truck boxes (ind_order w)"
    by (simp add: evaluate_def Let_def)
  have "mset (map (\<lambda>i. box_id (boxes ! i)) (ind_order w))
      = image_mset (\<lambda>i. box_id (boxes ! i)) (mset [0..<length boxes])"
    using pm by (metis perm_order_def mset_map)
  also have "\<dots> = mset (map (\<lambda>i. box_id (boxes ! i)) [0..<length boxes])" by simp
  also have "map (\<lambda>i. box_id (boxes ! i)) [0..<length boxes] = map box_id boxes"
    by (intro nth_equalityI) simp_all
  finally have ids: "mset (map (\<lambda>i. box_id (boxes ! i)) (ind_order w)) = mset (map box_id boxes)" .
  have "optimize_ga L truck boxes population generations mr seed = ind_result w"
    using False by (simp add: optimize_ga_def fin_def w_def)
  then show ?thesis
    unfolding res using pack_partition [of truck boxes "ind_order w"] ids by simp
qed

section \<open>Request adapter: boxes that share an id\<close>

lemma ex_rng_ok: "rng_ok ex_rng"
  by (simp add: rng_ok_def ex_rng_def)

lemma ex_dup_ids: "map box_id ex_dup_boxes = [''A'', ''A'']"
  by (simp add: ex_dup_boxes_def)

lemma ex_dup_length: "length ex_dup_boxes \<le> SIZE_MAX"
  by (simp add: ex_dup_boxes_def SIZE_MAX_def)

text \<open>
  Claim C8, as the code has it. When two input boxes share an id, the call does not
  fail: neither \<open>optimize\<close> nor \<open>optimize_ga\<close> compares ids. The call runs the optimization
  on the boxes as given and returns its \<open>Result\<close>, in which every input id, the shared one
  included, occurs among the placed and unplaced ids as often as among the input boxes.
  (The generator draws within its ranges and \<open>std::shuffle\<close> permutes; the number of boxes
  is a \<open>size_t\<close>.)
\<close>

theorem optimize_accepts_duplicate_ids:
  assumes "rng_ok L" "length b \<le> SIZE_MAX" "\<not> distinct (map box_id b)"
  shows "\<exists>r. optimize L t b params = Inr r
     \<and> mset (map pl_id (placed r)) + mset (unplaced r) = mset (map box_id b)"
proof -
  define r where "r = optimize_ga L t b
     (case p_population params of Some v \<Rightarrow> v | None \<Rightarrow> 40)
     (case p_generations params of Some v \<Rightarrow> v | None \<Rightarrow> 40)
     (case p_mutation_rate params of Some v \<Rightarrow> v | None \<Rightarrow> 8 / 100)
     (case p_seed params of Some v \<Rightarrow> v | None \<Rightarrow> 12345)"
  have "optimize L t b params = Inr r"
    unfolding optimize_def r_def by (simp only: Let_def)
  moreover have "mset (map pl_id (placed r)) + mset (unplaced r) = mset (map box_id b)"
    unfolding r_def using assms(1,2) by (rule optimize_ga_partition)
  ultimately show ?thesis by blast
qed

theorem optimize_accepts_duplicate_ids_witness:
  "rng_ok ex_rng \<and> length ex_dup_boxes \<le> SIZE_MAX \<and> \<not> distinct (map box_id ex_dup_boxes)
   \<and> (\<exists>r. optimize ex_rng ex2_truck ex_dup_boxes ex_params = Inr r
          \<and> mset (map pl_id (placed r)) + mset (unplaced r) = {#''A'', ''A''#})"
proof -
  have d: "\<not> distinct (map box_id ex_dup_boxes)"
    unfolding ex_dup_ids by simp
  have m: "mset (map box_id ex_dup_boxes) = {#''A'', ''A''#}"
    unfolding ex_dup_ids by simp
  show ?thesis
    using optimize_accepts_duplicate_ids [OF ex_rng_ok ex_dup_length d, of ex2_truck ex_params]
      ex_rng_ok ex_dup_length d
    unfolding m by blast
qed

text \<open>
  The claim as stated fails: for two boxes with the id A the call returns a \<open>Result\<close>, not
  \<open>DuplicateId\<close>.
\<close>

theorem duplicate_id_counterexample:
  "\<not> distinct (map box_id ex_dup_boxes)
   \<and> optimize ex_rng ex2_truck ex_dup_boxes ex_params
       = Inr (optimize_ga ex_rng ex2_truck ex_dup_boxes 40 40 (8 / 100) 12345)
   \<and> optimize ex_rng ex2_truck ex_dup_boxes ex_params \<noteq> Inl DuplicateId"
proof -
  have d: "\<not> distinct (map box_id ex_dup_boxes)"
    unfolding ex_dup_ids by simp
  have e: "optimize ex_rng ex2_truck ex_dup_boxes ex_params
       = Inr (optimize_ga ex_rng ex2_truck ex_dup_boxes 40 40 (8 / 100) 12345)"
    unfolding optimize_def ex_params_def by (simp add: Let_def)
  show ?thesis using d e by simp
qed

end
